theory Spec2Isabelle
  imports Main "HOL-Library.Sublist"
begin

section \<open>Python strings\<close>

text \<open>
  A Python \<open>str\<close> is a sequence of Unicode code points; it is modelled as the list of
  the \<open>ord\<close> values of its characters. \<open>cps\<close> turns an ASCII literal into that list.
\<close>

type_synonym pystr = "int list"

definition cps :: "string \<Rightarrow> pystr" where
  "cps s = map of_char s"

text \<open>
  The character classes of \<open>re\<close> on \<open>str\<close> patterns are Unicode aware. Their ASCII part is
  written out; the part beyond ASCII comes from the Unicode character database, which is not
  part of the repository and is taken as a parameter: \<open>nd_value\<close> gives the value of a
  decimal digit (category Nd; an entry that is not in 0..9 is ignored) and \<open>alnum\<close> tells
  the alphanumeric characters.
\<close>

record unicode =
  nd_value :: "int \<Rightarrow> int option"
  alnum :: "int \<Rightarrow> bool"

definition digit_value :: "unicode \<Rightarrow> int \<Rightarrow> int option" where
  "digit_value U c =
     (if c < 128 then (if 48 \<le> c \<and> c \<le> 57 then Some (c - 48) else None)
      else (case nd_value U c of
              Some v \<Rightarrow> if 0 \<le> v \<and> v \<le> 9 then Some v else None
            | None \<Rightarrow> None))"

definition is_digit :: "unicode \<Rightarrow> int \<Rightarrow> bool" where
  "is_digit U c = (digit_value U c \<noteq> None)"

text \<open>\<open>str.isspace\<close>, which is also the class \<open>\s\<close> and what \<open>str.strip()\<close> removes.\<close>

definition is_space :: "int \<Rightarrow> bool" where
  "is_space c =
     ((9 \<le> c \<and> c \<le> 13) \<or> (28 \<le> c \<and> c \<le> 32) \<or> c = 0x85 \<or> c = 0xA0 \<or> c = 0x1680
      \<or> (0x2000 \<le> c \<and> c \<le> 0x200A) \<or> c = 0x2028 \<or> c = 0x2029 \<or> c = 0x202F
      \<or> c = 0x205F \<or> c = 0x3000)"

definition is_word :: "unicode \<Rightarrow> int \<Rightarrow> bool" where
  "is_word U c =
     (if c < 128
      then (48 \<le> c \<and> c \<le> 57) \<or> (65 \<le> c \<and> c \<le> 90) \<or> (97 \<le> c \<and> c \<le> 122) \<or> c = 95
      else alnum U c)"

text \<open>The line boundaries of \<open>str.splitlines()\<close>.\<close>

definition is_linebreak :: "int \<Rightarrow> bool" where
  "is_linebreak c =
     (c = 10 \<or> c = 11 \<or> c = 12 \<or> c = 13 \<or> c = 28 \<or> c = 29 \<or> c = 30 \<or> c = 0x85
      \<or> c = 0x2028 \<or> c = 0x2029)"

fun splitlines_from :: "pystr \<Rightarrow> pystr \<Rightarrow> pystr list" where
  "splitlines_from cur [] = (if cur = [] then [] else [cur])"
| "splitlines_from cur [c] = (if is_linebreak c then [cur] else [cur @ [c]])"
| "splitlines_from cur (c # d # cs) =
     (if c = 13 \<and> d = 10 then cur # splitlines_from [] cs
      else if is_linebreak c then cur # splitlines_from [] (d # cs)
      else splitlines_from (cur @ [c]) (d # cs))"

definition splitlines :: "pystr \<Rightarrow> pystr list" where
  "splitlines s = splitlines_from [] s"

fun join :: "pystr \<Rightarrow> pystr list \<Rightarrow> pystr" where
  "join sep [] = []"
| "join sep [x] = x"
| "join sep (x # y # ys) = x @ sep @ join sep (y # ys)"

fun split_from :: "int \<Rightarrow> pystr \<Rightarrow> pystr \<Rightarrow> pystr list" where
  "split_from d cur [] = [cur]"
| "split_from d cur (c # cs) =
     (if c = d then cur # split_from d [] cs else split_from d (cur @ [c]) cs)"

definition split :: "int \<Rightarrow> pystr \<Rightarrow> pystr list" where
  "split d s = split_from d [] s"

definition strip :: "pystr \<Rightarrow> pystr" where
  "strip s = rev (dropWhile is_space (rev (dropWhile is_space s)))"

text \<open>\<open>sub in s\<close> on strings.\<close>

fun contains :: "pystr \<Rightarrow> pystr \<Rightarrow> bool" where
  "contains sub [] = (sub = [])"
| "contains sub (x # xs) = (prefix sub (x # xs) \<or> contains sub xs)"

section \<open>Regular expressions\<close>

text \<open>
  The patterns of the importer are kept as syntax trees and run by a backtracking matcher
  with the search order of \<open>re\<close>: alternatives left to right, greedy repetition longest
  first, lazy repetition shortest first, the first complete match wins.
  \<open>Rep lo hi greedy r\<close> is \<open>r{lo,hi}\<close> (\<open>hi = None\<close>: unbounded).
\<close>

datatype cset = CLit int | CRange int int | CDigit | CSpace | CDot

fun in_cset :: "unicode \<Rightarrow> cset \<Rightarrow> int \<Rightarrow> bool" where
  "in_cset U (CLit a) c = (c = a)"
| "in_cset U (CRange a b) c = (a \<le> c \<and> c \<le> b)"
| "in_cset U CDigit c = is_digit U c"
| "in_cset U CSpace c = is_space c"
| "in_cset U CDot c = (c \<noteq> 10)"

datatype rx =
    Ch cset
  | Eps
  | Cat rx rx
  | Alt rx rx
  | Rep nat "nat option" bool rx
  | Grp nat rx
  | Bol
  | Eol
  | Wb

text \<open>
  The matcher runs on the rest of the subject, the character before it (\<open>None\<close> at the
  start of the subject) and the groups captured so far, and hands the three to a continuation
  that matches what follows. A failing continuation makes the matcher try its next choice.
\<close>

type_synonym caps = "nat \<Rightarrow> pystr option"
type_synonym cont = "int option \<Rightarrow> pystr \<Rightarrow> caps \<Rightarrow> caps option"
type_synonym matcher = "int option \<Rightarrow> pystr \<Rightarrow> caps \<Rightarrow> cont \<Rightarrow> caps option"

text \<open>
  \<open>iter m greedy n lo\<close> repeats \<open>m\<close> at most \<open>n\<close> and at least \<open>lo\<close> times. An unbounded
  repetition is run with \<open>n\<close> the length of the rest of the subject: the repeated
  expressions of this program all consume a character, so no more rounds are possible.
\<close>

primrec iter :: "matcher \<Rightarrow> bool \<Rightarrow> nat \<Rightarrow> nat \<Rightarrow> matcher" where
  "iter m g 0 lo = (\<lambda>p s c k. if lo = 0 then k p s c else None)"
| "iter m g (Suc n) lo = (\<lambda>p s c k.
     (if g then
        (case m p s c (\<lambda>p' s' c'. iter m g n (lo - 1) p' s' c' k) of
           Some r \<Rightarrow> Some r
         | None \<Rightarrow> if lo = 0 then k p s c else None)
      else
        (case (if lo = 0 then k p s c else None) of
           Some r \<Rightarrow> Some r
         | None \<Rightarrow> m p s c (\<lambda>p' s' c'. iter m g n (lo - 1) p' s' c' k))))"

definition word_at :: "unicode \<Rightarrow> int option \<Rightarrow> bool" where
  "word_at U p = (case p of None \<Rightarrow> False | Some c \<Rightarrow> is_word U c)"

primrec rx_go :: "unicode \<Rightarrow> rx \<Rightarrow> matcher" where
  "rx_go U (Ch cs) = (\<lambda>p s c k.
     (case s of [] \<Rightarrow> None | x # xs \<Rightarrow> if in_cset U cs x then k (Some x) xs c else None))"
| "rx_go U Eps = (\<lambda>p s c k. k p s c)"
| "rx_go U (Cat a b) = (\<lambda>p s c k. rx_go U a p s c (\<lambda>p' s' c'. rx_go U b p' s' c' k))"
| "rx_go U (Alt a b) = (\<lambda>p s c k.
     (case rx_go U a p s c k of Some r \<Rightarrow> Some r | None \<Rightarrow> rx_go U b p s c k))"
| "rx_go U (Rep lo hi g r) = (\<lambda>p s c k.
     iter (rx_go U r) g (case hi of None \<Rightarrow> length s | Some h \<Rightarrow> h) lo p s c k)"
| "rx_go U (Grp n r) = (\<lambda>p s c k.
     rx_go U r p s c (\<lambda>p' s' c'. k p' s' (c'(n \<mapsto> take (length s - length s') s))))"
| "rx_go U Bol = (\<lambda>p s c k. if p = None then k p s c else None)"
| "rx_go U Eol = (\<lambda>p s c k. if s = [] \<or> s = [10] then k p s c else None)"
| "rx_go U Wb = (\<lambda>p s c k.
     if word_at U p \<noteq> word_at U (case s of [] \<Rightarrow> None | x # _ \<Rightarrow> Some x)
     then k p s c else None)"

text \<open>
  \<open>re.match\<close> tries the pattern at the start of the subject only; \<open>re.search\<close> tries every
  start position from left to right. Both return the groups of the match (\<open>None\<close>: no match).
\<close>

definition re_match :: "unicode \<Rightarrow> rx \<Rightarrow> pystr \<Rightarrow> caps option" where
  "re_match U r s = rx_go U r None s Map.empty (\<lambda>p s' c. Some c)"

fun search_from :: "unicode \<Rightarrow> rx \<Rightarrow> int option \<Rightarrow> pystr \<Rightarrow> caps option" where
  "search_from U r p [] = rx_go U r p [] Map.empty (\<lambda>p s' c. Some c)"
| "search_from U r p (x # xs) =
     (case rx_go U r p (x # xs) Map.empty (\<lambda>p s' c. Some c) of
        Some c \<Rightarrow> Some c
      | None \<Rightarrow> search_from U r (Some x) xs)"

definition re_search :: "unicode \<Rightarrow> rx \<Rightarrow> pystr \<Rightarrow> caps option" where
  "re_search U r s = search_from U r None s"

text \<open>
  A match object is truthy, \<open>None\<close> is not: \<open>matched\<close>. \<open>grp\<close> is
  \<open>m.group(n)\<close>. Every group read through \<open>grp\<close> below takes part in each match of its
  pattern (this is proved further down); only group 1, the optional \<open>(CR\s+)?\<close>, can be
  \<open>None\<close>, and it is read through \<open>truthy\<close>, which is \<open>bool(m.group(1))\<close>.
\<close>

definition matched :: "caps option \<Rightarrow> bool" where
  "matched m = (case m of None \<Rightarrow> False | Some c \<Rightarrow> True)"

definition grp :: "caps \<Rightarrow> nat \<Rightarrow> pystr" where
  "grp c n = (case c n of Some w \<Rightarrow> w | None \<Rightarrow> [])"

definition truthy :: "pystr option \<Rightarrow> bool" where
  "truthy g = (case g of None \<Rightarrow> False | Some w \<Rightarrow> w \<noteq> [])"

subsection \<open>Pattern syntax\<close>

definition lit :: "string \<Rightarrow> rx" where
  "lit s = foldr (\<lambda>ch r. Cat (Ch (CLit (of_char ch))) r) s Eps"

definition lits :: "pystr \<Rightarrow> rx" where
  "lits s = foldr (\<lambda>c r. Cat (Ch (CLit c)) r) s Eps"

definition seq :: "rx list \<Rightarrow> rx" where
  "seq rs = foldr Cat rs Eps"

definition many1 :: "rx \<Rightarrow> rx" where "many1 r = Rep 1 None True r"
definition many :: "rx \<Rightarrow> rx" where "many r = Rep 0 None True r"
definition lazy_many1 :: "rx \<Rightarrow> rx" where "lazy_many1 r = Rep 1 None False r"
definition optional :: "rx \<Rightarrow> rx" where "optional r = Rep 0 (Some 1) True r"
definition exactly :: "nat \<Rightarrow> rx \<Rightarrow> rx" where "exactly n r = Rep n (Some n) True r"

text \<open>\<^verbatim>\<open>[A-Z]\<close>\<close>

definition upper :: rx where
  "upper = Ch (CRange 65 90)"

text \<open>\<^verbatim>\<open>\d{1,3}(?:,\d{3})*\.\d+|\d+\.\d+\<close>, the decimal amount of every pattern.\<close>

definition dec :: rx where
  "dec = Alt (seq [Rep 1 (Some 3) True (Ch CDigit), many (seq [lit '','', exactly 3 (Ch CDigit)]),
                   lit ''.'', many1 (Ch CDigit)])
             (seq [many1 (Ch CDigit), lit ''.'', many1 (Ch CDigit)])"

text \<open>\<^verbatim>\<open>\d{2}/\d{2}/\d{2}\<close>\<close>

definition dmy :: rx where
  "dmy = seq [exactly 2 (Ch CDigit), lit ''/'', exactly 2 (Ch CDigit), lit ''/'',
              exactly 2 (Ch CDigit)]"

text \<open>\<^verbatim>\<open>(CR\s+)?\<close>\<close>

definition cr_prefix :: rx where
  "cr_prefix = optional (Grp 1 (seq [lit ''CR'', many1 (Ch CSpace)]))"

text \<open>
  \<^verbatim>\<open>^(CR\s+)?(dec)\s+(dec)\s+Advance Payment\s+.+?\s+(dec)\s+([A-Z]{3})\s+(dmy)\s+(dmy)$\<close>
\<close>

definition advance_payment_pattern :: rx where
  "advance_payment_pattern =
     seq [Bol, cr_prefix, Grp 2 dec, many1 (Ch CSpace), Grp 3 dec, many1 (Ch CSpace),
          lit ''Advance Payment'', many1 (Ch CSpace), lazy_many1 (Ch CDot), many1 (Ch CSpace),
          Grp 4 dec, many1 (Ch CSpace), Grp 5 (exactly 3 upper), many1 (Ch CSpace),
          Grp 6 dmy, many1 (Ch CSpace), Grp 7 dmy, Eol]"

text \<open>\<^verbatim>\<open>^(CR\s+)?(dec)\s+(dec)\s+(.+?)\s+(dmy)\s+(dmy)$\<close>\<close>

definition pattern :: rx where
  "pattern =
     seq [Bol, cr_prefix, Grp 2 dec, many1 (Ch CSpace), Grp 3 dec, many1 (Ch CSpace),
          Grp 4 (lazy_many1 (Ch CDot)), many1 (Ch CSpace), Grp 5 dmy, many1 (Ch CSpace),
          Grp 6 dmy, Eol]"

text \<open>The looser Advance Payment pattern has the same text as \<open>pattern\<close>.\<close>

definition general_pattern :: rx where
  "general_pattern = pattern"

text \<open>\<^verbatim>\<open>^(CR\s+)?(dec)\s+(dec)\s+Amount:\s+(dec)\s+(.+?)\s+(dmy)\s+(dmy)$\<close>\<close>

definition alt_pattern :: rx where
  "alt_pattern =
     seq [Bol, cr_prefix, Grp 2 dec, many1 (Ch CSpace), Grp 3 dec, many1 (Ch CSpace),
          lit ''Amount:'', many1 (Ch CSpace), Grp 4 dec, many1 (Ch CSpace),
          Grp 5 (lazy_many1 (Ch CDot)), many1 (Ch CSpace), Grp 6 dmy, many1 (Ch CSpace),
          Grp 7 dmy, Eol]"

text \<open>\<^verbatim>\<open>(dec)\s+([A-Z]{3})\<close>\<close>

definition currency_pattern :: rx where
  "currency_pattern = seq [Grp 1 dec, many1 (Ch CSpace), Grp 2 (exactly 3 upper)]"

text \<open>\<^verbatim>\<open>\b([A-Z]{3})\b\<close>\<close>

definition currency_code_pattern :: rx where
  "currency_code_pattern = seq [Wb, Grp 1 (exactly 3 upper), Wb]"

text \<open>\<^verbatim>\<open>(dec)\<close>, with the whole match as group 0.\<close>

definition transaction_amount_pattern :: rx where
  "transaction_amount_pattern = Grp 0 (Grp 1 dec)"

text \<open>\<^verbatim>\<open>^Amount:\s+(dec)\<close>\<close>

definition next_line_amount_pattern :: rx where
  "next_line_amount_pattern = seq [Bol, lit ''Amount:'', many1 (Ch CSpace), Grp 1 dec]"

text \<open>
  The boilerplate patterns of the sanitizer, in the order of the source. The first and
  the fourth are Arabic titles in presentation forms, given by their code points.
\<close>

definition patterns :: "rx list" where
  "patterns =
     [lits [0xFE94, 0xFEF4, 0xFEE7, 0xFE8E, 0xFEE4, 0xFE98, 0xFE8B, 0xFEFB, 0xFE8D, 0x20,
            0xFE94, 0xFED7, 0xFE8E, 0xFEC4, 0xFE92, 0xFEDF, 0xFE8D, 0x20,
            0xFE8F, 0xFE8E, 0xFEB4, 0xFEA3, 0x20, 0xFED2, 0xFEB8, 0xFEDB],
      lit ''credit card statement'',
      seq [lit ''Page no. '', many1 (Ch CDigit), lit '' of '', many1 (Ch CDigit)],
      lits [0xFEAE, 0xFEEC, 0xFEB7, 0x20, 0xFE8F, 0xFE8E, 0xFEB4, 0xFEA3, 0x20,
            0xFED2, 0xFEB8, 0xFEDB],
      seq [many1 upper, lit '', '', exactly 4 (Ch CDigit), lit '' Statement Month'']]"

section \<open>Library values: errors, decimals, dates\<close>

datatype error =
  TypeError | ValueError | UnboundLocalError | NameError | IndexError | Overflow
  | UnmodelledPattern

text \<open>
  \<open>decimal.Decimal\<close>: sign, coefficient and exponent; the value is
  \<open>\<plusminus> dec_coeff * 10 ^ dec_exp\<close>. \<open>Decimal('150.00')\<close> has coefficient 15000 and
  exponent -2, so the digits after the point are kept.
\<close>

record decimal =
  dec_neg :: bool
  dec_coeff :: int
  dec_exp :: int

text \<open>\<open>int(s)\<close> on a string of decimal digits (blanks around them are ignored).\<close>

definition digits_int :: "unicode \<Rightarrow> pystr \<Rightarrow> int" where
  "digits_int U s =
     foldl (\<lambda>a c. case digit_value U c of Some v \<Rightarrow> 10 * a + v | None \<Rightarrow> a) 0 s"

text \<open>
  \<open>Decimal(s)\<close> for the numerals made of digits and a decimal point, the ones the
  importer builds; signs, exponents and the special values of the numeric-string syntax are
  not modelled and read as invalid.
\<close>

definition parse_decimal :: "unicode \<Rightarrow> pystr \<Rightarrow> error + decimal" where
  "parse_decimal U s =
     (let ip = takeWhile (is_digit U) s; rest = dropWhile (is_digit U) s
      in case rest of
           [] \<Rightarrow> if ip = [] then Inl ValueError
                 else Inr \<lparr>dec_neg = False, dec_coeff = digits_int U ip, dec_exp = 0\<rparr>
         | c # fp \<Rightarrow>
             if c = 46 \<and> list_all (is_digit U) fp \<and> (ip \<noteq> [] \<or> fp \<noteq> [])
             then Inr \<lparr>dec_neg = False, dec_coeff = digits_int U (ip @ fp),
                       dec_exp = - int (length fp)\<rparr>
             else Inl ValueError)"

text \<open>
  \<open>beancount.core.number.D\<close> on a string: the empty string is zero, otherwise commas and
  blanks are removed and the rest goes to \<open>Decimal\<close>; a failure is a \<open>ValueError\<close>.
\<close>

definition D :: "unicode \<Rightarrow> pystr \<Rightarrow> error + decimal" where
  "D U s =
     (if s = [] then Inr \<lparr>dec_neg = False, dec_coeff = 0, dec_exp = 0\<rparr>
      else parse_decimal U (filter (\<lambda>c. c \<noteq> 44 \<and> c \<noteq> 32) s))"

text \<open>
  The default context of \<open>decimal\<close>: 28 digits of precision, exponents of at most
  \<open>Emax\<close> and at least \<open>Emin\<close>, rounding half-even, and the \<open>Overflow\<close> signal trapped
  (\<open>Underflow\<close>, \<open>Rounded\<close>, \<open>Inexact\<close>, \<open>Subnormal\<close> and \<open>Clamped\<close> are not).
  \<open>Etop\<close> is the largest exponent of a result with all its digits, \<open>Etiny\<close> the
  smallest exponent of a result.
\<close>

definition prec :: int where "prec = 28"
definition Emax :: int where "Emax = 999999"
definition Emin :: int where "Emin = - 999999"
definition Etop :: int where "Etop = Emax - prec + 1"
definition Etiny :: int where "Etiny = Emin - prec + 1"

text \<open>The number of decimal digits of a coefficient.\<close>

function ndigits :: "int \<Rightarrow> nat" where
  "ndigits n = (if n < 10 then 1 else Suc (ndigits (n div 10)))"
  by pat_completeness auto
termination
  by (relation "measure nat") auto

declare ndigits.simps [simp del]

text \<open>
  What the context makes of an exact result: a zero keeps its exponent, clamped to the
  range of the context; a number whose adjusted exponent is above \<open>Emax\<close> raises
  \<open>decimal.Overflow\<close>; a number with more digits than the precision, or with an exponent
  below \<open>Etiny\<close>, is rounded half-even to the smallest allowed exponent, and raises
  \<open>decimal.Overflow\<close> when the rounding carries it above \<open>Emax\<close>.
\<close>

definition fix_number :: "int \<Rightarrow> int \<Rightarrow> error + (int \<times> int)" where
  "fix_number coeff expo =
     (if coeff = 0 then Inr (0, min (max expo Etiny) Emax)
      else
        let exp_min = int (ndigits coeff) + expo - prec
        in if Etop < exp_min then Inl Overflow
           else
             let exp_min = max exp_min Etiny
             in if expo < exp_min then
                  (let k = nat (exp_min - expo);
                       q = coeff div 10 ^ k; r = coeff mod 10 ^ k;
                       h = 5 * 10 ^ (k - 1);
                       q' = (if h < r \<or> (r = h \<and> odd q) then q + 1 else q);
                       carry = (prec < int (ndigits q'));
                       exp_min = (if carry then exp_min + 1 else exp_min)
                   in if Etop < exp_min then Inl Overflow
                      else Inr (if carry then q' div 10 else q', exp_min))
                else Inr (coeff, expo))"

definition fix_context :: "decimal \<Rightarrow> error + decimal" where
  "fix_context d =
     (case fix_number (dec_coeff d) (dec_exp d) of
        Inl e \<Rightarrow> Inl e
      | Inr (coeff, expo) \<Rightarrow> Inr (d\<lparr>dec_coeff := coeff, dec_exp := expo\<rparr>))"

text \<open>\<open>Decimal * int\<close>: the exact product, then the context.\<close>

definition dec_mul_int :: "decimal \<Rightarrow> int \<Rightarrow> error + decimal" where
  "dec_mul_int d i =
     fix_context \<lparr>dec_neg = (dec_neg d \<noteq> (i < 0)), dec_coeff = dec_coeff d * \<bar>i\<bar>,
                   dec_exp = dec_exp d\<rparr>"

text \<open>\<open>datetime.date\<close>\<close>

record pydate =
  year :: int
  month :: int
  day :: int

definition days_in_month :: "int \<Rightarrow> int \<Rightarrow> int" where
  "days_in_month y m =
     (if m = 2 then (if y mod 4 = 0 \<and> (y mod 100 \<noteq> 0 \<or> y mod 400 = 0) then 29 else 28)
      else if m = 4 \<or> m = 6 \<or> m = 9 \<or> m = 11 then 30 else 31)"

text \<open>
  \<open>datetime.strptime(s, '%d/%m/%y').date()\<close>. The standard library turns the format into
  the pattern
  \<^verbatim>\<open>(?P<d>3[0-1]|[1-2]\d|0[1-9]|[1-9]| [1-9])/(?P<m>1[0-2]|0[1-9]|[1-9])/(?P<y>\d\d)\<close>,
  which has to match the whole string; a two-digit year up to 68 is in the 2000s, a later
  one in the 1900s; the day has to exist in the month. Anything else is a \<open>ValueError\<close>.
\<close>

definition strptime_pattern :: rx where
  "strptime_pattern =
     Grp 0 (seq [
       Grp 1 (Alt (seq [lit ''3'', Ch (CRange 48 49)])
             (Alt (seq [Ch (CRange 49 50), Ch CDigit])
             (Alt (seq [lit ''0'', Ch (CRange 49 57)])
             (Alt (Ch (CRange 49 57)) (seq [lit '' '', Ch (CRange 49 57)]))))),
       lit ''/'',
       Grp 2 (Alt (seq [lit ''1'', Ch (CRange 48 50)])
             (Alt (seq [lit ''0'', Ch (CRange 49 57)]) (Ch (CRange 49 57)))),
       lit ''/'',
       Grp 3 (seq [Ch CDigit, Ch CDigit])])"

definition strptime :: "unicode \<Rightarrow> pystr \<Rightarrow> error + pydate" where
  "strptime U s =
     (case re_match U strptime_pattern s of
        None \<Rightarrow> Inl ValueError
      | Some found \<Rightarrow>
          if length (grp found 0) \<noteq> length s then Inl ValueError
          else
            let d = digits_int U (grp found 1); m = digits_int U (grp found 2);
                y = digits_int U (grp found 3);
                y' = (if y \<le> 68 then y + 2000 else y + 1900)
            in if 1 \<le> m \<and> m \<le> 12 \<and> 1 \<le> d \<and> d \<le> days_in_month y' m
               then Inr \<lparr>year = y', month = m, day = d\<rparr>
               else Inl ValueError)"

section \<open>The importer\<close>

text \<open>
  The attributes of an \<open>Importer\<close> object, and what the outside world gives for a file
  path: the media type guessed by \<open>mimetypes.guess_type\<close> and the text that
  \<open>extract_text()\<close> returns for each page of the PDF.
\<close>

record importer =
  importer_account :: pystr
  currency :: pystr
  flag :: pystr
  account_number :: pystr

record document =
  filepath :: pystr
  guess_type :: "pystr option"
  page_texts :: "pystr list"

text \<open>
  \<open>beancount.core.data\<close>: \<open>Amount\<close>, \<open>Posting\<close> (its cost, price, flag and meta are always
  \<open>None\<close> here) and \<open>Transaction\<close> with the metadata of \<open>new_metadata(filepath, 0, ())\<close>.
\<close>

record bc_amount =
  amt_number :: decimal
  amt_currency :: pystr

record posting =
  post_account :: pystr
  post_units :: bc_amount

record transaction =
  meta_filename :: pystr
  meta_lineno :: int
  txn_date :: pydate
  txn_flag :: pystr
  txn_payee :: "pystr option"
  txn_narration :: pystr
  txn_tags :: "pystr set"
  txn_links :: "pystr set"
  txn_postings :: "posting list"

subsection \<open>filename, account, identify, date\<close>

definition filename :: "importer \<Rightarrow> pystr \<Rightarrow> pystr" where
  "filename self fp = cps ''maybank.pdf''"

definition account :: "importer \<Rightarrow> pystr \<Rightarrow> pystr" where
  "account self fp = importer_account self"




text \<open>
  The names that the module binds at its top level: its imports, \<open>__license__\<close> and the
  class. \<open>date\<close> calls \<open>pdf_to_text\<close>, which is looked up there when the call is reached.
\<close>

definition module_names :: "string list" where
  "module_names =
     [''__license__'', ''csv'', ''pdfplumber'', ''datetime'', ''re'', ''logging'', ''sp'',
      ''ROUND_DOWN'', ''path'', ''StringIO'', ''parse'', ''defaultdict'', ''parse_datetime'',
      ''account'', ''amount'', ''data'', ''flags'', ''position'', ''D'', ''ZERO'',
      ''beangulp'', ''mimetypes'', ''cache'', ''main'', ''Importer'']"

text \<open>\<^verbatim>\<open>Date: ([^\n]*)\<close>\<close>

definition date_pattern :: rx where
  "date_pattern = seq [lit ''Date: '', Grp 1 (many (Ch CDot))]"

text \<open>
  \<open>date\<close>, given what \<open>pdf_to_text\<close> would compute if the name were bound and the
  \<open>parse\<close> function of \<open>dateutil\<close>.
\<close>

definition date ::
  "(pystr \<Rightarrow> pystr) \<Rightarrow> (pystr \<Rightarrow> error + pydate) \<Rightarrow> unicode \<Rightarrow> importer \<Rightarrow> document
     \<Rightarrow> error + pydate option" where
  "date pdf_to_text parse_datetime U self doc =
     (if ''pdf_to_text'' \<notin> set module_names then Inl NameError
      else
        let text = pdf_to_text (filepath doc)
        in case re_search U date_pattern text of
             Some m \<Rightarrow>
               (case parse_datetime (grp m 1) of
                  Inl e \<Rightarrow> Inl e
                | Inr d \<Rightarrow> Inr (Some d))
           | None \<Rightarrow> Inr None)"

subsection \<open>extract: the sanitizer\<close>

text \<open>
  The first loop of \<open>extract\<close>: a line goes to \<open>clean_lines\<close> unless \<open>re.match\<close> finds one
  of the boilerplate patterns at its start.
\<close>

definition any_match :: "unicode \<Rightarrow> pystr \<Rightarrow> bool" where
  "any_match U line = list_ex (\<lambda>pat. matched (re_match U pat line)) patterns"

fun clean_loop :: "unicode \<Rightarrow> pystr list \<Rightarrow> pystr list \<Rightarrow> pystr list" where
  "clean_loop U [] clean_lines = clean_lines"
| "clean_loop U (line # rest) clean_lines =
     clean_loop U rest (if \<not> any_match U line then clean_lines @ [line] else clean_lines)"

subsection \<open>extract: one round of the parsing loop\<close>

text \<open>The local variables that the transaction is built from.\<close>

record fields =
  is_credit :: bool
  amount :: pystr
  fee :: pystr
  transaction_amount :: pystr
  transaction_currency :: "pystr option"
  posting_date :: pystr
  transaction_date :: pystr

text \<open>
  What a round finds in the current line: nothing, an Advance Payment line, or a standard
  line. An Advance Payment line carries the value assigned to \<open>units\<close> in this round, if
  any; a standard line carries \<open>units\<close>, \<open>payee\<close>, \<open>description\<close> and the number of
  following lines that the round consumes.
\<close>

datatype parsed =
    NoMatch
  | AdvanceLine fields "bc_amount option"
  | StandardLine fields bc_amount "pystr option" "pystr option" nat

text \<open>\<open>data.Amount(D(str(amount)) * (1 if is_credit else -1), currency)\<close>\<close>

definition make_units :: "unicode \<Rightarrow> importer \<Rightarrow> pystr \<Rightarrow> bool \<Rightarrow> error + bc_amount" where
  "make_units U self amt credit =
     (case D U amt of
        Inl e \<Rightarrow> Inl e
      | Inr d \<Rightarrow>
          (case dec_mul_int d (if credit then 1 else - 1) of
             Inl e \<Rightarrow> Inl e
           | Inr n \<Rightarrow> Inr \<lparr>amt_number = n, amt_currency = currency self\<rparr>))"

text \<open>
  \<open>lines[k]\<close>: a negative index counts from the end, an index out of range raises
  \<open>IndexError\<close>.
\<close>

definition item :: "pystr list \<Rightarrow> int \<Rightarrow> error + pystr" where
  "item xs k =
     (let n = int (length xs); j = (if k < 0 then n + k else k)
      in if 0 \<le> j \<and> j < n then Inr (xs ! nat j) else Inl IndexError)"

text \<open>
  The Advance Payment branch. When only the looser pattern matches, the net amount and the
  currency are searched in the free text, and \<open>units\<close> is not assigned: the assignment
  sits in the branch of the strict pattern.
\<close>

definition advance_amount_and_currency ::
  "unicode \<Rightarrow> pystr \<Rightarrow> pystr \<Rightarrow> pystr \<times> pystr option" where
  "advance_amount_and_currency U amt remaining =
     (case re_search U currency_pattern remaining of
        Some currency_match \<Rightarrow> (grp currency_match 1, Some (grp currency_match 2))
      | None \<Rightarrow>
          (amt, map_option (\<lambda>cm. grp cm 1) (re_search U currency_code_pattern remaining)))"

definition parse_advance :: "unicode \<Rightarrow> importer \<Rightarrow> pystr \<Rightarrow> error + parsed" where
  "parse_advance U self current_line =
     (case re_match U advance_payment_pattern current_line of
        None \<Rightarrow>
          (case re_match U general_pattern current_line of
             Some m \<Rightarrow>
               Inr (AdvanceLine
                 \<lparr>is_credit = truthy (m 1), amount = grp m 2, fee = grp m 3,
                  transaction_amount =
                    fst (advance_amount_and_currency U (grp m 2) (grp m 4)),
                  transaction_currency =
                    snd (advance_amount_and_currency U (grp m 2) (grp m 4)),
                  posting_date = grp m 5, transaction_date = grp m 6\<rparr> None)
           | None \<Rightarrow> Inr NoMatch)
      | Some advance_match \<Rightarrow>
          (case make_units U self (grp advance_match 2) (truthy (advance_match 1)) of
             Inl e \<Rightarrow> Inl e
           | Inr units \<Rightarrow>
               Inr (AdvanceLine
                 \<lparr>is_credit = truthy (advance_match 1), amount = grp advance_match 2,
                  fee = grp advance_match 3, transaction_amount = grp advance_match 4,
                  transaction_currency = Some (grp advance_match 5),
                  posting_date = grp advance_match 6,
                  transaction_date = grp advance_match 7\<rparr> (Some units))))"

text \<open>
  The neighbours of line \<open>i\<close>: the two lines above (payee, description) when there are
  two, and the line above (payee) and the line below (description) when they exist.
\<close>

definition two_above :: "pystr list \<Rightarrow> nat \<Rightarrow> error + (pystr option \<times> pystr option)" where
  "two_above lines i =
     (if 2 \<le> i then
        (case item lines (int i - 2) of
           Inl e \<Rightarrow> Inl e
         | Inr payee \<Rightarrow>
             (case item lines (int i - 1) of
                Inl e \<Rightarrow> Inl e
              | Inr description \<Rightarrow> Inr (Some payee, Some description)))
      else Inr (None, None))"

definition above_and_below ::
  "pystr list \<Rightarrow> nat \<Rightarrow> error + (pystr option \<times> pystr option)" where
  "above_and_below lines i =
     (case (if 0 < i then map_sum id Some (item lines (int i - 1)) else Inr None) of
        Inl e \<Rightarrow> Inl e
      | Inr payee \<Rightarrow>
          (case (if i + 1 < length lines then map_sum id Some (item lines (int i + 1))
                 else Inr None) of
             Inl e \<Rightarrow> Inl e
           | Inr description \<Rightarrow> Inr (payee, description)))"

text \<open>\<open>i + 1 < len(lines) and re.match(next_line_amount_pattern, lines[i+1])\<close>\<close>

definition next_line_has_amount :: "unicode \<Rightarrow> pystr list \<Rightarrow> nat \<Rightarrow> error + bool" where
  "next_line_has_amount U lines i =
     (if i + 1 < length lines then
        (case item lines (int i + 1) of
           Inl e \<Rightarrow> Inl e
         | Inr next_line \<Rightarrow> Inr (matched (re_match U next_line_amount_pattern next_line)))
      else Inr False)"

text \<open>The "Amount:" format (Type B), for a match \<open>m\<close> of \<open>alt_pattern\<close> on line \<open>i\<close>.\<close>

definition parse_amount_format ::
  "unicode \<Rightarrow> importer \<Rightarrow> pystr list \<Rightarrow> nat \<Rightarrow> caps \<Rightarrow> error + parsed" where
  "parse_amount_format U self lines i m =
     (case make_units U self (grp m 2) (truthy (m 1)) of
        Inl e \<Rightarrow> Inl e
      | Inr units \<Rightarrow>
          (case two_above lines i of
             Inl e \<Rightarrow> Inl e
           | Inr (payee, description) \<Rightarrow>
               Inr (StandardLine
                 \<lparr>is_credit = truthy (m 1), amount = grp m 2, fee = grp m 3,
                  transaction_amount = grp m 4,
                  transaction_currency =
                    map_option (\<lambda>cm. grp cm 2) (re_search U currency_pattern (grp m 5)),
                  posting_date = grp m 6, transaction_date = grp m 7\<rparr>
                 units payee description 0)))"

text \<open>
  The regular format (Type C), for a match \<open>m\<close> of \<open>pattern\<close> on line \<open>i\<close>: the net
  amount and the currency are searched in the free text; when the next line is an
  "Amount:" line the neighbours are those of Type B and the next line is consumed.
\<close>

definition amount_and_currency :: "unicode \<Rightarrow> pystr \<Rightarrow> pystr \<Rightarrow> pystr \<times> pystr option" where
  "amount_and_currency U amt remaining =
     (case re_search U currency_pattern remaining of
        Some currency_match \<Rightarrow> (grp currency_match 1, Some (grp currency_match 2))
      | None \<Rightarrow>
          ((case re_search U transaction_amount_pattern remaining of
              Some transaction_amount_match \<Rightarrow> grp transaction_amount_match 0
            | None \<Rightarrow> amt),
           map_option (\<lambda>cm. grp cm 1) (re_search U currency_code_pattern remaining)))"

definition parse_regular_format ::
  "unicode \<Rightarrow> importer \<Rightarrow> pystr list \<Rightarrow> nat \<Rightarrow> caps \<Rightarrow> error + parsed" where
  "parse_regular_format U self lines i m =
     (case make_units U self (grp m 2) (truthy (m 1)) of
        Inl e \<Rightarrow> Inl e
      | Inr units \<Rightarrow>
          (let f = \<lparr>is_credit = truthy (m 1), amount = grp m 2, fee = grp m 3,
                    transaction_amount = fst (amount_and_currency U (grp m 2) (grp m 4)),
                    transaction_currency = snd (amount_and_currency U (grp m 2) (grp m 4)),
                    posting_date = grp m 5, transaction_date = grp m 6\<rparr>
           in case next_line_has_amount U lines i of
                Inl e \<Rightarrow> Inl e
              | Inr True \<Rightarrow>
                  (case two_above lines i of
                     Inl e \<Rightarrow> Inl e
                   | Inr (payee, description) \<Rightarrow>
                       Inr (StandardLine f units payee description 1))
              | Inr False \<Rightarrow>
                  (case above_and_below lines i of
                     Inl e \<Rightarrow> Inl e
                   | Inr (payee, description) \<Rightarrow>
                       Inr (StandardLine f units payee description 0))))"

text \<open>
  The standard branch: Type B when \<open>alt_pattern\<close> matches, Type C when only \<open>pattern\<close>
  does, no transaction when neither does.
\<close>

definition parse_standard ::
  "unicode \<Rightarrow> importer \<Rightarrow> pystr list \<Rightarrow> nat \<Rightarrow> pystr \<Rightarrow> error + parsed" where
  "parse_standard U self lines i current_line =
     (case re_match U alt_pattern current_line of
        Some alt_match \<Rightarrow> parse_amount_format U self lines i alt_match
      | None \<Rightarrow>
          (case re_match U pattern current_line of
             Some m \<Rightarrow> parse_regular_format U self lines i m
           | None \<Rightarrow> Inr NoMatch))"

text \<open>\<open>advance_match or "Advance Payment" in current_line\<close>\<close>

definition advance_branch :: "unicode \<Rightarrow> pystr \<Rightarrow> bool" where
  "advance_branch U current_line =
     (matched (re_match U advance_payment_pattern current_line)
      \<or> contains (cps ''Advance Payment'') current_line)"

definition parse_line :: "unicode \<Rightarrow> importer \<Rightarrow> pystr list \<Rightarrow> nat \<Rightarrow> error + parsed" where
  "parse_line U self lines i =
     (case item lines (int i) of
        Inl e \<Rightarrow> Inl e
      | Inr current_line \<Rightarrow>
          if advance_branch U current_line
          then parse_advance U self current_line
          else parse_standard U self lines i current_line)"

text \<open>
  \<open>data.Transaction(...)\<close>. The arguments are evaluated in order: the date (\<open>strptime\<close>
  may raise), the narration (concatenating a \<open>None\<close> currency raises \<open>TypeError\<close>), the
  posting (reading an unassigned \<open>units\<close> raises \<open>UnboundLocalError\<close>).
\<close>

definition make_entry ::
  "unicode \<Rightarrow> importer \<Rightarrow> pystr \<Rightarrow> fields \<Rightarrow> pystr option \<Rightarrow> bc_amount option
     \<Rightarrow> error + transaction" where
  "make_entry U self fp f payee units =
     (case strptime U (posting_date f) of
        Inl e \<Rightarrow> Inl e
      | Inr d \<Rightarrow>
          (case transaction_currency f of
             None \<Rightarrow> Inl TypeError
           | Some tc \<Rightarrow>
               (case units of
                  None \<Rightarrow> Inl UnboundLocalError
                | Some u \<Rightarrow>
                    Inr \<lparr>meta_filename = fp, meta_lineno = 0, txn_date = d,
                         txn_flag = cps ''*'', txn_payee = payee,
                         txn_narration =
                           (if is_credit f then cps ''CR '' else cps ''-'')
                           @ transaction_amount f @ cps '' '' @ tc @ cps '' on ''
                           @ transaction_date f,
                         txn_tags = {}, txn_links = {},
                         txn_postings =
                           [\<lparr>post_account = account self fp, post_units = u\<rparr>]\<rparr>)))"

text \<open>
  One round at cursor \<open>i\<close> with the current binding of \<open>units\<close> (\<open>None\<close>: not yet
  assigned). It gives the transaction appended (if any), the number of further lines
  consumed, and the new binding of \<open>units\<close>; the cursor then moves by one more.
\<close>

definition step ::
  "unicode \<Rightarrow> importer \<Rightarrow> pystr \<Rightarrow> pystr list \<Rightarrow> nat \<Rightarrow> bc_amount option
     \<Rightarrow> error + (transaction option \<times> nat \<times> bc_amount option)" where
  "step U self fp lines i units =
     (case parse_line U self lines i of
        Inl e \<Rightarrow> Inl e
      | Inr NoMatch \<Rightarrow> Inr (None, 0, units)
      | Inr (AdvanceLine f assigned) \<Rightarrow>
          (let units' = (case assigned of Some u \<Rightarrow> Some u | None \<Rightarrow> units)
           in case make_entry U self fp f (Some (cps ''Advance payment'')) units' of
                Inl e \<Rightarrow> Inl e
              | Inr entry \<Rightarrow> Inr (Some entry, 0, units'))
      | Inr (StandardLine f u payee description extra) \<Rightarrow>
          (case make_entry U self fp f payee (Some u) of
             Inl e \<Rightarrow> Inl e
           | Inr entry \<Rightarrow> Inr (Some entry, extra, Some u)))"

subsection \<open>extract\<close>

function extract_loop ::
  "unicode \<Rightarrow> importer \<Rightarrow> pystr \<Rightarrow> pystr list \<Rightarrow> nat \<Rightarrow> bc_amount option \<Rightarrow> transaction list
     \<Rightarrow> error + transaction list" where
  "extract_loop U self fp lines i units entries =
     (if i < length lines then
        (case step U self fp lines i units of
           Inl e \<Rightarrow> Inl e
         | Inr (entry, extra, units') \<Rightarrow>
             extract_loop U self fp lines (i + extra + 1) units'
               (case entry of Some e \<Rightarrow> entries @ [e] | None \<Rightarrow> entries))
      else Inr entries)"
  by pat_completeness auto
termination
  by (relation "measure (\<lambda>(U, self, fp, lines, i, units, entries). length lines - i)") auto

declare extract_loop.simps [simp del]

text \<open>The non-blank lines of the sanitized text, stripped.\<close>

definition text_to_lines :: "unicode \<Rightarrow> pystr \<Rightarrow> pystr list" where
  "text_to_lines U text =
     (let clean_lines = clean_loop U (splitlines text) [];
          text_lines = join [10] clean_lines
      in map strip (filter (\<lambda>line. strip line \<noteq> []) (split 10 (strip text_lines))))"

text \<open>\<open>Importer.extract\<close> (the name \<open>extract\<close> is a keyword of Isabelle).\<close>

definition extract_txns :: "unicode \<Rightarrow> importer \<Rightarrow> document \<Rightarrow> error + transaction list" where
  "extract_txns U self doc =
     extract_loop U self (filepath doc)
       (text_to_lines U (join [10] (page_texts doc))) 0 None []"

section \<open>Notions of the specification\<close>

text \<open>
  The shapes of a line, by the branch of the loop that it takes: no shape when no pattern
  of its branch matches, the AmountAnnotated shape when \<open>alt_pattern\<close> matches, the Plain
  shape when only \<open>pattern\<close> does.
\<close>

definition no_shape :: "unicode \<Rightarrow> pystr \<Rightarrow> bool" where
  "no_shape U line =
     (if advance_branch U line
      then \<not> matched (re_match U advance_payment_pattern line)
           \<and> \<not> matched (re_match U general_pattern line)
      else \<not> matched (re_match U alt_pattern line) \<and> \<not> matched (re_match U pattern line))"

definition amount_annotated_shape :: "unicode \<Rightarrow> pystr \<Rightarrow> bool" where
  "amount_annotated_shape U line =
     (\<not> advance_branch U line \<and> matched (re_match U alt_pattern line))"

definition plain_shape :: "unicode \<Rightarrow> pystr \<Rightarrow> bool" where
  "plain_shape U line =
     (\<not> advance_branch U line \<and> \<not> matched (re_match U alt_pattern line)
      \<and> matched (re_match U pattern line))"

text \<open>The line after line \<open>i\<close> is an "Amount:" continuation line.\<close>

definition continued :: "unicode \<Rightarrow> pystr list \<Rightarrow> nat \<Rightarrow> bool" where
  "continued U lines i =
     (i + 1 < length lines \<and> matched (re_match U next_line_amount_pattern (lines ! (i + 1))))"

text \<open>
  The neighbours that the specification gives a standard line: the two lines before the
  cursor for the AmountAnnotated shape and for a continued Plain line (absent when fewer
  than two lines precede), the line before and the line after for a Plain line (each absent
  when it does not exist).
\<close>

definition spec_two_before :: "pystr list \<Rightarrow> nat \<Rightarrow> pystr option \<times> pystr option" where
  "spec_two_before lines i =
     (if 2 \<le> i then (Some (lines ! (i - 2)), Some (lines ! (i - 1))) else (None, None))"

definition spec_before_after :: "pystr list \<Rightarrow> nat \<Rightarrow> pystr option \<times> pystr option" where
  "spec_before_after lines i =
     (if 0 < i then Some (lines ! (i - 1)) else None,
      if i + 1 < length lines then Some (lines ! (i + 1)) else None)"

text \<open>
  The fields of a line are complete when its posting date is a calendar date and a
  transaction currency was found for it. A line is well formed when it has no shape, or its
  fields are complete and it is not an Advance Payment line that only the looser pattern
  matches.
\<close>

definition raises :: "error + 'a \<Rightarrow> bool" where
  "raises x = (case x of Inl e \<Rightarrow> True | Inr v \<Rightarrow> False)"

definition complete_fields :: "unicode \<Rightarrow> fields \<Rightarrow> bool" where
  "complete_fields U f =
     (\<not> raises (strptime U (posting_date f)) \<and> transaction_currency f \<noteq> None)"

definition well_formed :: "unicode \<Rightarrow> importer \<Rightarrow> pystr list \<Rightarrow> nat \<Rightarrow> bool" where
  "well_formed U self lines i =
     (case parse_line U self lines i of
        Inr (AdvanceLine f assigned) \<Rightarrow> assigned \<noteq> None \<and> complete_fields U f
      | Inr (StandardLine f u payee description extra) \<Rightarrow> complete_fields U f
      | _ \<Rightarrow> True)"

text \<open>
  The posted amount that the specification gives a line: the raw amount of the line, read by
  \<open>D\<close>, times 1 for a credit and -1 for a debit, in the currency of the importer.
\<close>

definition raw_units :: "unicode \<Rightarrow> importer \<Rightarrow> fields \<Rightarrow> bc_amount \<Rightarrow> bool" where
  "raw_units U self f u =
     (\<exists>d n. D U (amount f) = Inr d
        \<and> dec_mul_int d (if is_credit f then 1 else - 1) = Inr n
        \<and> u = \<lparr>amt_number = n, amt_currency = currency self\<rparr>)"






section \<open>The words of a pattern\<close>

text \<open>
  \<open>lang U r\<close> holds every text that \<open>r\<close> can consume (the upper bound of a repetition is
  left out). \<open>grp_ok U Q r\<close> says that every group \<open>n\<close> of \<open>r\<close> can only capture texts with
  \<open>Q n\<close>, and \<open>cls_ok U P r\<close> that every character that \<open>r\<close> consumes has \<open>P\<close>.
\<close>

primrec lang :: "unicode \<Rightarrow> rx \<Rightarrow> pystr set" where
  "lang U (Ch cs) = {[x] | x. in_cset U cs x}"
| "lang U Eps = {[]}"
| "lang U (Cat a b) = {u @ v | u v. u \<in> lang U a \<and> v \<in> lang U b}"
| "lang U (Alt a b) = lang U a \<union> lang U b"
| "lang U (Rep lo hi g r) = {concat ws | ws. set ws \<subseteq> lang U r \<and> lo \<le> length ws}"
| "lang U (Grp n r) = lang U r"
| "lang U Bol = {[]}"
| "lang U Eol = {[]}"
| "lang U Wb = {[]}"

primrec grp_ok :: "unicode \<Rightarrow> (nat \<Rightarrow> pystr \<Rightarrow> bool) \<Rightarrow> rx \<Rightarrow> bool" where
  "grp_ok U Q (Ch cs) = True"
| "grp_ok U Q Eps = True"
| "grp_ok U Q (Cat a b) = (grp_ok U Q a \<and> grp_ok U Q b)"
| "grp_ok U Q (Alt a b) = (grp_ok U Q a \<and> grp_ok U Q b)"
| "grp_ok U Q (Rep lo hi g r) = grp_ok U Q r"
| "grp_ok U Q (Grp n r) = (grp_ok U Q r \<and> (\<forall>w \<in> lang U r. Q n w))"
| "grp_ok U Q Bol = True"
| "grp_ok U Q Eol = True"
| "grp_ok U Q Wb = True"

primrec cls_ok :: "unicode \<Rightarrow> (int \<Rightarrow> bool) \<Rightarrow> rx \<Rightarrow> bool" where
  "cls_ok U P (Ch cs) = (\<forall>x. in_cset U cs x \<longrightarrow> P x)"
| "cls_ok U P Eps = True"
| "cls_ok U P (Cat a b) = (cls_ok U P a \<and> cls_ok U P b)"
| "cls_ok U P (Alt a b) = (cls_ok U P a \<and> cls_ok U P b)"
| "cls_ok U P (Rep lo hi g r) = cls_ok U P r"
| "cls_ok U P (Grp n r) = cls_ok U P r"
| "cls_ok U P Bol = True"
| "cls_ok U P Eol = True"
| "cls_ok U P Wb = True"

definition caps_ok :: "(nat \<Rightarrow> pystr \<Rightarrow> bool) \<Rightarrow> caps \<Rightarrow> bool" where
  "caps_ok Q c = (\<forall>n w. c n = Some w \<longrightarrow> Q n w)"

text \<open>
  \<open>reach Q L k s res\<close>: the continuation \<open>k\<close> gives \<open>res\<close> after a word of \<open>L\<close> at the
  start of \<open>s\<close>, on groups with \<open>Q\<close>. A matcher is sound for \<open>L\<close> when each of its results
  is reached that way.
\<close>

definition reach ::
  "(nat \<Rightarrow> pystr \<Rightarrow> bool) \<Rightarrow> pystr set \<Rightarrow> cont \<Rightarrow> pystr \<Rightarrow> caps \<Rightarrow> bool" where
  "reach Q L k s res =
     (\<exists>w p' s' c'. s = w @ s' \<and> w \<in> L \<and> caps_ok Q c' \<and> k p' s' c' = Some res)"

definition sound :: "(nat \<Rightarrow> pystr \<Rightarrow> bool) \<Rightarrow> pystr set \<Rightarrow> matcher \<Rightarrow> bool" where
  "sound Q L m =
     (\<forall>p s c k res. m p s c k = Some res \<longrightarrow> caps_ok Q c \<longrightarrow> reach Q L k s res)"

text \<open>
  \<open>must r\<close> holds the groups that take part in every match of \<open>r\<close>; a matcher
  captures \<open>M\<close> when each of its results has the groups of \<open>M\<close>, and keeps those
  it had.
\<close>

primrec must :: "rx \<Rightarrow> nat set" where
  "must (Ch cs) = {}"
| "must Eps = {}"
| "must (Cat a b) = must a \<union> must b"
| "must (Alt a b) = must a \<inter> must b"
| "must (Rep lo hi g r) = (if 0 < lo then must r else {})"
| "must (Grp n r) = insert n (must r)"
| "must Bol = {}"
| "must Eol = {}"
| "must Wb = {}"

definition captures :: "nat set \<Rightarrow> matcher \<Rightarrow> bool" where
  "captures M m =
     (\<forall>p s c k res. m p s c k = Some res \<longrightarrow>
        (\<exists>p' s' c'. k p' s' c' = Some res \<and> dom c \<union> M \<subseteq> dom c'))"

text \<open>
  A matcher is bounded by \<open>N\<close> when, on a subject and groups of at most \<open>N\<close> characters,
  it hands on a rest and groups of at most \<open>N\<close> characters.
\<close>

definition caps_within :: "nat \<Rightarrow> caps \<Rightarrow> bool" where
  "caps_within N c = (\<forall>n w. c n = Some w \<longrightarrow> length w \<le> N)"

definition bounded :: "nat \<Rightarrow> matcher \<Rightarrow> bool" where
  "bounded N m =
     (\<forall>p s c k res. m p s c k = Some res \<longrightarrow> length s \<le> N \<longrightarrow> caps_within N c \<longrightarrow>
        (\<exists>p' s' c'. k p' s' c' = Some res \<and> length s' \<le> N \<and> caps_within N c'))"

text \<open>
  The texts of a decimal amount: digits and commas with at least one digit, a point, and
  at least one digit.
\<close>

definition numeral_text :: "unicode \<Rightarrow> pystr \<Rightarrow> bool" where
  "numeral_text U w =
     (\<exists>a b. w = a @ 46 # b \<and> (\<forall>c \<in> set a. is_digit U c \<or> c = 44)
        \<and> (\<exists>c \<in> set a. is_digit U c) \<and> b \<noteq> [] \<and> (\<forall>c \<in> set b. is_digit U c))"

section \<open>Concrete statements\<close>

text \<open>
  The inputs of the concrete statements below are ASCII, so the tables beyond ASCII are
  never consulted; \<open>ascii_only\<close> leaves them empty.
\<close>

definition ascii_only :: unicode where
  "ascii_only = \<lparr>nd_value = (\<lambda>c. None), alnum = (\<lambda>c. False)\<rparr>"

definition sar_importer :: importer where
  "sar_importer =
     \<lparr>importer_account = cps ''Liabilities:Rajhi:Bonvoy'', currency = cps ''SAR'',
      flag = cps ''*'', account_number = cps ''1234''\<rparr>"

text \<open>A PDF file with the given page texts.\<close>

definition pdf_of :: "pystr list \<Rightarrow> document" where
  "pdf_of pages =
     \<lparr>filepath = cps ''statement.pdf'', guess_type = Some (cps ''application/pdf''),
      page_texts = pages\<rparr>"

text \<open>The text with the given lines.\<close>

definition text_of :: "string list \<Rightarrow> pystr" where
  "text_of ls = join [10] (map cps ls)"

text \<open>What the transactions show of their narration and posted numbers.\<close>

definition narration_and_numbers :: "transaction \<Rightarrow> pystr \<times> decimal list" where
  "narration_and_numbers e =
     (txn_narration e, map (\<lambda>p. amt_number (post_units p)) (txn_postings e))"

text \<open>A Plain line with two lines above it and an "Amount:" line below it.\<close>

definition continued_lines :: "pystr list" where
  "continued_lines = map cps [''A'', ''B'', ''10.00 1.00 Shop 9.00 USD 01/05/23 02/05/23'', ''Amount: 5.00'', ''C'']"

text \<open>A text of one Plain line.\<close>

definition single_line :: "pystr list" where
  "single_line = map cps [''10.00 1.00 Shop 9.00 USD 01/05/23 02/05/23'']"

text \<open>An "Amount:" format line with a single line above it.\<close>

definition short_annotated :: "pystr list" where
  "short_annotated = map cps [''Amazon'', ''75.00 1.50 Amount: 73.50 20.00 USD 05/07/23 06/07/23'']"

text \<open>A Plain line whose posting date, 31 February, is no calendar date.\<close>

definition bad_date_line :: "pystr list" where
  "bad_date_line = map cps [''10.00 1.00 Shop 9.00 USD 31/02/23 02/05/23'']"

text \<open>The same line followed by an "Amount:" line.\<close>

definition bad_date_continued :: "pystr list" where
  "bad_date_continued = map cps [''10.00 1.00 Shop 9.00 USD 31/02/23 02/05/23'', ''Amount: 5.00'']"

text \<open>A line of no shape, an Advance Payment line of the strict pattern and a Plain line.\<close>

definition mixed_lines :: "string list" where
  "mixed_lines = [''hello 12.5'',
     ''CR 1,250.50 0.00 Advance Payment XYZ 1,250.50 SAR 10/06/23 11/06/23'',
     ''10.00 1.00 Shop 9.00 USD 01/05/23 02/05/23'']"

section \<open>Properties\<close>

subsection \<open>The matcher finds words of the pattern\<close>

lemma reachI: "s = w @ s' \<Longrightarrow> w \<in> L \<Longrightarrow> caps_ok Q c' \<Longrightarrow> k p' s' c' = Some res \<Longrightarrow> reach Q L k s res"
  unfolding reach_def by blast

lemma soundD: "sound Q L m \<Longrightarrow> m p s c k = Some res \<Longrightarrow> caps_ok Q c \<Longrightarrow> reach Q L k s res"
  unfolding sound_def by blast

lemma iter_sound:
  assumes "sound Q L m"
  shows "iter m g n lo p s c k = Some res \<Longrightarrow> caps_ok Q c \<Longrightarrow>
     reach Q {concat ws | ws. set ws \<subseteq> L \<and> lo \<le> length ws} k s res"
proof (induction n arbitrary: lo p s c)
  case 0
  from 0(1) have lo: "lo = 0" by (simp split: if_splits)
  with 0(1) have k: "k p s c = Some res" by simp
  have "[] \<in> {concat ws | ws. set ws \<subseteq> L \<and> lo \<le> length ws}"
    using lo by (simp add: exI[of _ "[]"])
  then show ?case using k 0(2) by (intro reachI[where k=k and p'=p and s'=s and c'=c and w="[]"]) simp_all
next
  case (Suc n)
  let ?k = "\<lambda>p' s' c'. iter m g n (lo - 1) p' s' c' k"
  from Suc.prems(1) consider (more) "m p s c ?k = Some res" | (stop) "lo = 0" "k p s c = Some res"
    by (simp split: if_splits option.splits)
  then show ?case
  proof cases
    case more
    from soundD[OF assms more Suc.prems(2)] obtain w p1 s1 c1 where
      w: "s = w @ s1" "w \<in> L" "caps_ok Q c1" "iter m g n (lo - 1) p1 s1 c1 k = Some res"
      unfolding reach_def by blast
    from Suc.IH[OF w(4) w(3)] obtain ws p' s' c' where
      ws: "s1 = concat ws @ s'" "set ws \<subseteq> L" "lo - 1 \<le> length ws" "caps_ok Q c'"
          "k p' s' c' = Some res" unfolding reach_def by blast
    have "set (w # ws) \<subseteq> L \<and> lo \<le> length (w # ws)" using w(2) ws(2,3) by simp
    then have a: "concat (w # ws) \<in> {concat ws | ws. set ws \<subseteq> L \<and> lo \<le> length ws}" by blast
    have b: "s = concat (w # ws) @ s'" using w(1) ws(1) by simp
    show ?thesis by (rule reachI[where k=k and p'=p' and s'=s' and c'=c', OF b a ws(4) ws(5)])
  next
    case stop
    have "[] \<in> {concat ws | ws. set ws \<subseteq> L \<and> lo \<le> length ws}"
      using stop(1) by (simp add: exI[of _ "[]"])
    then show ?thesis using stop(2) Suc.prems(2) by (intro reachI[where k=k and p'=p and s'=s and c'=c and w="[]"]) simp_all
  qed
qed

lemma rx_go_sound: "grp_ok U Q r \<Longrightarrow> sound Q (lang U r) (rx_go U r)"
proof (induction r)
  case (Ch cs)
  show ?case unfolding sound_def
  proof (intro allI impI)
    fix p s c k res
    assume m: "rx_go U (Ch cs) p s c k = Some res" and c: "caps_ok Q c"
    from m obtain x xs where s: "s = x # xs" by (cases s) auto
    with m have x: "in_cset U cs x" and k: "k (Some x) xs c = Some res"
      by (simp_all split: if_splits)
    have "[x] \<in> lang U (Ch cs)" using x by simp
    then show "reach Q (lang U (Ch cs)) k s res"
      using s k c by (intro reachI[where k=k and p'="Some x" and s'=xs and c'=c and w="[x]"]) simp_all
  qed
next
  case Eps
  show ?case unfolding sound_def
  proof (intro allI impI)
    fix p s c k res
    assume m: "rx_go U Eps p s c k = Some res" and c: "caps_ok Q c"
    then show "reach Q (lang U Eps) k s res"
      by (intro reachI[where k=k and p'=p and s'=s and c'=c and w="[]"]) simp_all
  qed
next
  case (Cat a b)
  then have a: "sound Q (lang U a) (rx_go U a)" and b: "sound Q (lang U b) (rx_go U b)" by simp_all
  show ?case unfolding sound_def
  proof (intro allI impI)
    fix p s c k res
    assume m: "rx_go U (Cat a b) p s c k = Some res" and c: "caps_ok Q c"
    from m have "rx_go U a p s c (\<lambda>p' s' c'. rx_go U b p' s' c' k) = Some res" by simp
    from soundD[OF a this c] obtain u p1 s1 c1 where
      u: "s = u @ s1" "u \<in> lang U a" "caps_ok Q c1" "rx_go U b p1 s1 c1 k = Some res"
      unfolding reach_def by blast
    from soundD[OF b u(4) u(3)] obtain v p2 s2 c2 where
      v: "s1 = v @ s2" "v \<in> lang U b" "caps_ok Q c2" "k p2 s2 c2 = Some res"
      unfolding reach_def by blast
    have 1: "s = (u @ v) @ s2" using u(1) v(1) by simp
    have 2: "u @ v \<in> lang U (Cat a b)" using u(2) v(2) by auto
    show "reach Q (lang U (Cat a b)) k s res" by (rule reachI[where k=k and p'=p2 and s'=s2 and c'=c2, OF 1 2 v(3) v(4)])
  qed
next
  case (Alt a b)
  then have a: "sound Q (lang U a) (rx_go U a)" and b: "sound Q (lang U b) (rx_go U b)" by simp_all
  show ?case unfolding sound_def
  proof (intro allI impI)
    fix p s c k res
    assume m: "rx_go U (Alt a b) p s c k = Some res" and c: "caps_ok Q c"
    then consider "rx_go U a p s c k = Some res" | "rx_go U b p s c k = Some res"
      by (simp split: option.splits)
    then show "reach Q (lang U (Alt a b)) k s res"
    proof cases
      case 1
      from soundD[OF a 1 c] show ?thesis unfolding reach_def by auto
    next
      case 2
      from soundD[OF b 2 c] show ?thesis unfolding reach_def by auto
    qed
  qed
next
  case (Rep lo hi g r)
  then have r: "sound Q (lang U r) (rx_go U r)" by simp
  show ?case unfolding sound_def
  proof (intro allI impI)
    fix p s c k res
    assume m: "rx_go U (Rep lo hi g r) p s c k = Some res" and c: "caps_ok Q c"
    from m have "iter (rx_go U r) g (case hi of None \<Rightarrow> length s | Some h \<Rightarrow> h) lo p s c k = Some res"
      by simp
    from iter_sound[OF r this c] show "reach Q (lang U (Rep lo hi g r)) k s res" by simp
  qed
next
  case (Grp n r)
  then have r: "sound Q (lang U r) (rx_go U r)" and q: "\<forall>w \<in> lang U r. Q n w" by simp_all
  show ?case unfolding sound_def
  proof (intro allI impI)
    fix p s c k res
    assume m: "rx_go U (Grp n r) p s c k = Some res" and c: "caps_ok Q c"
    from m have "rx_go U r p s c (\<lambda>p' s' c'. k p' s' (c'(n \<mapsto> take (length s - length s') s))) = Some res"
      by simp
    from soundD[OF r this c] obtain w p' s' c' where
      w: "s = w @ s'" "w \<in> lang U r" "caps_ok Q c'"
         "k p' s' (c'(n \<mapsto> take (length s - length s') s)) = Some res"
      unfolding reach_def by blast
    have 1: "caps_ok Q (c'(n \<mapsto> w))" using w(2,3) q by (simp add: caps_ok_def)
    have 2: "k p' s' (c'(n \<mapsto> w)) = Some res" using w(1,4) by simp
    have 3: "w \<in> lang U (Grp n r)" using w(2) by simp
    show "reach Q (lang U (Grp n r)) k s res" by (rule reachI[where k=k and p'=p' and s'=s' and c'="c'(n \<mapsto> w)", OF w(1) 3 1 2])
  qed
next
  case Bol
  show ?case unfolding sound_def
  proof (intro allI impI)
    fix p s c k res
    assume m: "rx_go U Bol p s c k = Some res" and c: "caps_ok Q c"
    from m have "k p s c = Some res" by (simp split: if_splits)
    then show "reach Q (lang U Bol) k s res" using c
      by (intro reachI[where k=k and p'=p and s'=s and c'=c and w="[]"]) simp_all
  qed
next
  case Eol
  show ?case unfolding sound_def
  proof (intro allI impI)
    fix p s c k res
    assume m: "rx_go U Eol p s c k = Some res" and c: "caps_ok Q c"
    from m have "k p s c = Some res" by (simp split: if_splits)
    then show "reach Q (lang U Eol) k s res" using c
      by (intro reachI[where k=k and p'=p and s'=s and c'=c and w="[]"]) simp_all
  qed
next
  case Wb
  show ?case unfolding sound_def
  proof (intro allI impI)
    fix p s c k res
    assume m: "rx_go U Wb p s c k = Some res" and c: "caps_ok Q c"
    from m have "k p s c = Some res" by (simp split: if_splits)
    then show "reach Q (lang U Wb) k s res" using c
      by (intro reachI[where k=k and p'=p and s'=s and c'=c and w="[]"]) simp_all
  qed
qed

lemma re_match_groups:
  assumes "grp_ok U Q r" "re_match U r s = Some m" "m n = Some w"
  shows "Q n w"
proof -
  have "caps_ok Q Map.empty" by (simp add: caps_ok_def)
  from soundD[OF rx_go_sound[OF assms(1)] assms(2)[unfolded re_match_def] this]
  have "caps_ok Q m" unfolding reach_def by auto
  with assms(3) show ?thesis by (simp add: caps_ok_def)
qed

lemma lang_chars: "cls_ok U P r \<Longrightarrow> w \<in> lang U r \<Longrightarrow> \<forall>c \<in> set w. P c"
proof (induction r arbitrary: w)
  case (Rep lo hi g r)
  then obtain ws where ws: "w = concat ws" "set ws \<subseteq> lang U r" by auto
  with Rep show ?case by auto
qed auto

lemma lang_rep_nonempty:
  assumes "w \<in> lang U (Rep lo hi g (Ch cs))" "0 < lo"
  shows "w \<noteq> []"
proof -
  from assms obtain ws where ws: "w = concat ws" "set ws \<subseteq> {[x] | x. in_cset U cs x}" "lo \<le> length ws"
    by auto
  with assms(2) obtain v vs where "ws = v # vs" by (cases ws) auto
  with ws show ?thesis by auto
qed

lemma lang_seq3:
  "w \<in> lang U (seq [a, b, c]) \<Longrightarrow>
     \<exists>x y z. w = x @ y @ z \<and> x \<in> lang U a \<and> y \<in> lang U b \<and> z \<in> lang U c"
  by (auto simp: seq_def)

lemma lang_seq4:
  "w \<in> lang U (seq [a, b, c, d]) \<Longrightarrow>
     \<exists>x y z t. w = x @ y @ z @ t \<and> x \<in> lang U a \<and> y \<in> lang U b \<and> z \<in> lang U c
        \<and> t \<in> lang U d"
  by (auto simp: seq_def)

lemma lang_lit_dot: "lang U (lit ''.'') = {[46]}"
  by (simp add: lit_def)

lemma digit_not_punct: "is_digit U c \<Longrightarrow> c \<noteq> 44 \<and> c \<noteq> 32 \<and> c \<noteq> 46"
  by (auto simp: is_digit_def digit_value_def split: if_splits)

lemma lang_digits:
  assumes "w \<in> lang U (Rep lo hi g (Ch CDigit))" "0 < lo"
  shows "w \<noteq> [] \<and> (\<forall>c \<in> set w. is_digit U c)"
  using lang_rep_nonempty[OF assms] lang_chars[of U "is_digit U" "Rep lo hi g (Ch CDigit)" w] assms(1)
  by simp

lemma lang_dec: assumes "w \<in> lang U dec" shows "numeral_text U w"
proof -
  let ?A1 = "Rep 1 (Some 3) True (Ch CDigit)"
  let ?A2 = "many (seq [lit '','', exactly 3 (Ch CDigit)])"
  let ?P = "many1 (Ch CDigit)"
  from assms have "w \<in> lang U (seq [?A1, ?A2, lit ''.'', ?P]) \<or> w \<in> lang U (seq [?P, lit ''.'', ?P])"
    unfolding dec_def by (simp only: lang.simps(4) Un_iff)
  then show ?thesis
  proof
    assume "w \<in> lang U (seq [?A1, ?A2, lit ''.'', ?P])"
    from lang_seq4[OF this] obtain a1 a2 b where w: "w = a1 @ a2 @ 46 # b" and a1: "a1 \<in> lang U ?A1"
      and a2: "a2 \<in> lang U ?A2" and b: "b \<in> lang U ?P"
      unfolding lang_lit_dot by auto
    from lang_digits[OF a1] have 1: "a1 \<noteq> []" "\<forall>c \<in> set a1. is_digit U c" by simp_all
    have "cls_ok U (\<lambda>c. is_digit U c \<or> c = 44) ?A2"
      by (simp add: many_def seq_def lit_def exactly_def)
    from lang_chars[OF this a2] have 2: "\<forall>c \<in> set a2. is_digit U c \<or> c = 44" .
    from lang_digits[OF b[unfolded many1_def]] have 3: "b \<noteq> []" "\<forall>c \<in> set b. is_digit U c" by simp_all
    from 1 obtain x where "x \<in> set a1" "is_digit U x" by (cases a1) auto
    then show ?thesis unfolding numeral_text_def using w 1 2 3
      by (intro exI[of _ "a1 @ a2"] exI[of _ b]) auto
  next
    assume "w \<in> lang U (seq [?P, lit ''.'', ?P])"
    from lang_seq3[OF this] obtain a b where w: "w = a @ 46 # b" and a: "a \<in> lang U ?P" and b: "b \<in> lang U ?P"
      unfolding lang_lit_dot by auto
    from lang_digits[OF a[unfolded many1_def]] have 1: "a \<noteq> []" "\<forall>c \<in> set a. is_digit U c" by simp_all
    from lang_digits[OF b[unfolded many1_def]] have 3: "b \<noteq> []" "\<forall>c \<in> set b. is_digit U c" by simp_all
    from 1 obtain x where "x \<in> set a" "is_digit U x" by (cases a) auto
    then show ?thesis unfolding numeral_text_def using w 1 3
      by (intro exI[of _ a] exI[of _ b]) auto
  qed
qed

lemma takeWhile_stop:
  "\<forall>x \<in> set xs. P x \<Longrightarrow> \<not> P y \<Longrightarrow>
     takeWhile P (xs @ y # ys) = xs \<and> dropWhile P (xs @ y # ys) = y # ys"
  by (induction xs) auto

lemma D_numeral_text:
  assumes "numeral_text U w"
  shows "\<exists>d. D U w = Inr d"
proof -
  let ?keep = "\<lambda>c. c \<noteq> 44 \<and> c \<noteq> (32::int)"
  from assms obtain a b where w: "w = a @ 46 # b"
    and a: "\<forall>c \<in> set a. is_digit U c \<or> c = 44" "\<exists>c \<in> set a. is_digit U c"
    and b: "b \<noteq> []" "\<forall>c \<in> set b. is_digit U c"
    unfolding numeral_text_def by blast
  have fb: "filter ?keep b = b" using b(2) digit_not_punct by (intro filter_True) blast
  have fa: "\<forall>c \<in> set (filter ?keep a). is_digit U c" using a(1) by auto
  have nd: "\<not> is_digit U 46" using digit_not_punct by blast
  have f: "filter ?keep w = filter ?keep a @ 46 # b" using w fb by simp
  have tw: "takeWhile (is_digit U) (filter ?keep a @ 46 # b) = filter ?keep a"
    and dw: "dropWhile (is_digit U) (filter ?keep a @ 46 # b) = 46 # b"
    using takeWhile_stop[OF fa nd] by simp_all
  have "w \<noteq> []" using w by simp
  then show ?thesis
    using b by (simp add: D_def f parse_decimal_def tw dw list_all_iff)
qed

lemma match_amount_ok:
  assumes "grp_ok U (\<lambda>n w. n = 2 \<longrightarrow> numeral_text U w) r" "re_match U r s = Some m"
  shows "\<exists>d. D U (grp m 2) = Inr d"
proof (cases "m 2")
  case None
  then show ?thesis by (simp add: grp_def D_def)
next
  case (Some w)
  from re_match_groups[OF assms Some] have "numeral_text U w" by simp
  from D_numeral_text[OF this] show ?thesis using Some by (simp add: grp_def)
qed

lemma grp_ok_dec: "grp_ok U Q dec"
  by (simp add: dec_def seq_def many_def many1_def exactly_def lit_def)

lemma grp_ok_dmy: "grp_ok U Q dmy"
  by (simp add: dmy_def seq_def exactly_def lit_def)

lemma grp_ok_pattern: "grp_ok U (\<lambda>n w. n = 2 \<longrightarrow> numeral_text U w) pattern"
  by (simp add: pattern_def cr_prefix_def seq_def optional_def many1_def lazy_many1_def lit_def lang_dec grp_ok_dec grp_ok_dmy)

lemma grp_ok_alt_pattern: "grp_ok U (\<lambda>n w. n = 2 \<longrightarrow> numeral_text U w) alt_pattern"
  by (simp add: alt_pattern_def cr_prefix_def seq_def optional_def many1_def lazy_many1_def lit_def lang_dec grp_ok_dec grp_ok_dmy)

lemma grp_ok_advance_payment_pattern:
  "grp_ok U (\<lambda>n w. n = 2 \<longrightarrow> numeral_text U w) advance_payment_pattern"
  by (simp add: advance_payment_pattern_def cr_prefix_def seq_def optional_def many1_def lazy_many1_def
      lit_def lang_dec grp_ok_dec grp_ok_dmy exactly_def upper_def)

text \<open>The groups that the importer reads take part in every match.\<close>

lemma capturesD:
  "captures M m \<Longrightarrow> m p s c k = Some res \<Longrightarrow>
     \<exists>p' s' c'. k p' s' c' = Some res \<and> dom c \<union> M \<subseteq> dom c'"
  unfolding captures_def by blast

lemma iter_captures:
  assumes "captures M m"
  shows "iter m g n lo p s c k = Some res \<Longrightarrow>
     \<exists>p' s' c'. k p' s' c' = Some res \<and> dom c \<union> (if 0 < lo then M else {}) \<subseteq> dom c'"
proof (induction n arbitrary: lo p s c)
  case 0
  then have "lo = 0" "k p s c = Some res" by (simp_all split: if_splits)
  then show ?case by auto
next
  case (Suc n)
  let ?k = "\<lambda>p' s' c'. iter m g n (lo - 1) p' s' c' k"
  from Suc.prems consider (more) "m p s c ?k = Some res" | (stop) "lo = 0" "k p s c = Some res"
    by (simp split: if_splits option.splits)
  then show ?case
  proof cases
    case more
    from capturesD[OF assms more] obtain p1 s1 c1 where
      1: "iter m g n (lo - 1) p1 s1 c1 k = Some res" "dom c \<union> M \<subseteq> dom c1" by blast
    from Suc.IH[OF 1(1)] obtain p' s' c' where
      2: "k p' s' c' = Some res" "dom c1 \<subseteq> dom c'" by auto
    from 1(2) 2(2) have "dom c \<union> (if 0 < lo then M else {}) \<subseteq> dom c'"
      by (cases "0 < lo") (simp_all, blast+)
    with 2(1) show ?thesis by blast
  next
    case stop
    then show ?thesis by auto
  qed
qed

lemma rx_go_captures: "captures (must r) (rx_go U r)"
proof (induction r)
  case (Ch cs)
  show ?case unfolding captures_def
  proof (intro allI impI)
    fix p s c k res
    assume m: "rx_go U (Ch cs) p s c k = Some res"
    then obtain x xs where "s = x # xs" by (cases s) auto
    with m have "k (Some x) xs c = Some res" by (simp split: if_splits)
    then show "\<exists>p' s' c'. k p' s' c' = Some res \<and> dom c \<union> must (Ch cs) \<subseteq> dom c'" by auto
  qed
next
  case Eps
  show ?case unfolding captures_def by auto
next
  case (Cat a b)
  show ?case unfolding captures_def
  proof (intro allI impI)
    fix p s c k res
    assume "rx_go U (Cat a b) p s c k = Some res"
    then have "rx_go U a p s c (\<lambda>p' s' c'. rx_go U b p' s' c' k) = Some res" by simp
    from capturesD[OF Cat(1) this] obtain p1 s1 c1 where
      1: "rx_go U b p1 s1 c1 k = Some res" "dom c \<union> must a \<subseteq> dom c1" by blast
    from capturesD[OF Cat(2) 1(1)] obtain p2 s2 c2 where
      2: "k p2 s2 c2 = Some res" "dom c1 \<union> must b \<subseteq> dom c2" by blast
    from 1(2) 2(2) have "dom c \<union> must (Cat a b) \<subseteq> dom c2" by (simp, blast)
    with 2(1) show "\<exists>p' s' c'. k p' s' c' = Some res \<and> dom c \<union> must (Cat a b) \<subseteq> dom c'"
      by blast
  qed
next
  case (Alt a b)
  show ?case unfolding captures_def
  proof (intro allI impI)
    fix p s c k res
    assume "rx_go U (Alt a b) p s c k = Some res"
    then consider "rx_go U a p s c k = Some res" | "rx_go U b p s c k = Some res"
      by (simp split: option.splits)
    then show "\<exists>p' s' c'. k p' s' c' = Some res \<and> dom c \<union> must (Alt a b) \<subseteq> dom c'"
    proof cases
      case 1
      from capturesD[OF Alt(1) 1] obtain p' s' c' where
        "k p' s' c' = Some res" "dom c \<union> must a \<subseteq> dom c'" by blast
      then have "k p' s' c' = Some res \<and> dom c \<union> must (Alt a b) \<subseteq> dom c'" by (simp, blast)
      then show ?thesis by blast
    next
      case 2
      from capturesD[OF Alt(2) 2] obtain p' s' c' where
        "k p' s' c' = Some res" "dom c \<union> must b \<subseteq> dom c'" by blast
      then have "k p' s' c' = Some res \<and> dom c \<union> must (Alt a b) \<subseteq> dom c'" by (simp, blast)
      then show ?thesis by blast
    qed
  qed
next
  case (Rep lo hi g r)
  show ?case unfolding captures_def
  proof (intro allI impI)
    fix p s c k res
    assume "rx_go U (Rep lo hi g r) p s c k = Some res"
    then have "iter (rx_go U r) g (case hi of None \<Rightarrow> length s | Some h \<Rightarrow> h) lo p s c k = Some res"
      by simp
    from iter_captures[OF Rep this]
    show "\<exists>p' s' c'. k p' s' c' = Some res \<and> dom c \<union> must (Rep lo hi g r) \<subseteq> dom c'" by simp
  qed
next
  case (Grp n r)
  show ?case unfolding captures_def
  proof (intro allI impI)
    fix p s c k res
    assume "rx_go U (Grp n r) p s c k = Some res"
    then have "rx_go U r p s c (\<lambda>p' s' c'. k p' s' (c'(n \<mapsto> take (length s - length s') s))) = Some res"
      by simp
    from capturesD[OF Grp this] obtain p' s' c' where
      1: "k p' s' (c'(n \<mapsto> take (length s - length s') s)) = Some res" "dom c \<union> must r \<subseteq> dom c'"
      by blast
    from 1(2) have "dom c \<union> must (Grp n r) \<subseteq> dom (c'(n \<mapsto> take (length s - length s') s))"
      by auto
    with 1(1) show "\<exists>p' s' c'. k p' s' c' = Some res \<and> dom c \<union> must (Grp n r) \<subseteq> dom c'"
      by blast
  qed
next
  case Bol
  show ?case unfolding captures_def by (auto split: if_splits)
next
  case Eol
  show ?case unfolding captures_def by (auto split: if_splits)
next
  case Wb
  show ?case unfolding captures_def by (auto split: if_splits)
qed

lemma re_match_captures: "re_match U r s = Some m \<Longrightarrow> must r \<subseteq> dom m"
  using capturesD[OF rx_go_captures, of U r None s Map.empty "\<lambda>p s' c. Some c" m]
  by (auto simp: re_match_def)

lemma must_seq: "must (seq rs) = (\<Union>r \<in> set rs. must r)"
  by (induction rs) (simp_all add: seq_def)

lemma pattern_groups: "re_match U pattern s = Some m \<Longrightarrow> {2, 3, 4, 5, 6} \<subseteq> dom m"
  using re_match_captures[of U pattern s m] by (simp add: pattern_def must_seq)

lemma alt_pattern_groups: "re_match U alt_pattern s = Some m \<Longrightarrow> {2, 3, 4, 5, 6, 7} \<subseteq> dom m"
  using re_match_captures[of U alt_pattern s m] by (simp add: alt_pattern_def must_seq)

lemma advance_payment_pattern_groups:
  "re_match U advance_payment_pattern s = Some m \<Longrightarrow> {2, 3, 4, 5, 6, 7} \<subseteq> dom m"
  using re_match_captures[of U advance_payment_pattern s m]
  by (simp add: advance_payment_pattern_def must_seq)

lemma search_from_captures: "search_from U r p s = Some m \<Longrightarrow> must r \<subseteq> dom m"
proof (induction s arbitrary: p)
  case Nil
  then show ?case
    using capturesD[OF rx_go_captures, of U r p "[]" Map.empty "\<lambda>p s' c. Some c" m] by auto
next
  case (Cons x xs)
  show ?case
  proof (cases "rx_go U r p (x # xs) Map.empty (\<lambda>p s' c. Some c)")
    case None
    with Cons show ?thesis by simp
  next
    case (Some c)
    with Cons.prems have "c = m" by simp
    with Some show ?thesis
      using capturesD[OF rx_go_captures, of U r p "x # xs" Map.empty "\<lambda>p s' c. Some c" m] by auto
  qed
qed

lemma re_search_captures: "re_search U r s = Some m \<Longrightarrow> must r \<subseteq> dom m"
  by (simp add: re_search_def search_from_captures)

lemma currency_pattern_groups: "re_search U currency_pattern s = Some m \<Longrightarrow> {1, 2} \<subseteq> dom m"
  using re_search_captures[of U currency_pattern s m] by (simp add: currency_pattern_def must_seq)

lemma currency_code_pattern_groups:
  "re_search U currency_code_pattern s = Some m \<Longrightarrow> {1} \<subseteq> dom m"
  using re_search_captures[of U currency_code_pattern s m]
  by (simp add: currency_code_pattern_def must_seq)

lemma transaction_amount_pattern_groups:
  "re_search U transaction_amount_pattern s = Some m \<Longrightarrow> {0} \<subseteq> dom m"
  using re_search_captures[of U transaction_amount_pattern s m]
  by (simp add: transaction_amount_pattern_def)

lemma strptime_pattern_groups:
  "re_match U strptime_pattern s = Some m \<Longrightarrow> {0, 1, 2, 3} \<subseteq> dom m"
  using re_match_captures[of U strptime_pattern s m] by (simp add: strptime_pattern_def must_seq)

lemma date_pattern_groups: "re_search U date_pattern s = Some m \<Longrightarrow> {1} \<subseteq> dom m"
  using re_search_captures[of U date_pattern s m] by (simp add: date_pattern_def must_seq)

subsection \<open>One round of the loop\<close>

lemma extract_loop_unfold:
  assumes "i < length lines" "step U self fp lines i units = Inr (entry, extra, units')"
  shows "extract_loop U self fp lines i units entries =
           extract_loop U self fp lines (i + extra + 1) units'
             (case entry of Some e \<Rightarrow> entries @ [e] | None \<Rightarrow> entries)"
  using assms by (subst extract_loop.simps) simp

lemma extract_loop_raise:
  assumes "i < length lines" "step U self fp lines i units = Inl e"
  shows "extract_loop U self fp lines i units entries = Inl e"
  using assms by (subst extract_loop.simps) simp

lemma extract_loop_done:
  "\<not> i < length lines \<Longrightarrow> extract_loop U self fp lines i units entries = Inr entries"
  by (subst extract_loop.simps) simp

lemma item_nat: "k < length xs \<Longrightarrow> item xs (int k) = Inr (xs ! k)"
  by (simp add: item_def)

lemma item_minus:
  assumes "k \<le> i" "i < length xs"
  shows "item xs (int i - int k) = Inr (xs ! (i - k))"
proof -
  have "int i - int k = int (i - k)" using assms(1) by simp
  moreover have "i - k < length xs" using assms(2) by simp
  ultimately show ?thesis by (simp only: item_nat)
qed

lemma item_plus:
  assumes "i + k < length xs"
  shows "item xs (int i + int k) = Inr (xs ! (i + k))"
proof -
  have "int i + int k = int (i + k)" by simp
  with assms show ?thesis by (simp only: item_nat)
qed

lemma item_minus2: "2 \<le> i \<Longrightarrow> i < length xs \<Longrightarrow> item xs (int i - 2) = Inr (xs ! (i - 2))"
  using item_minus[of 2 i xs] by simp

lemma item_minus1: "0 < i \<Longrightarrow> i < length xs \<Longrightarrow> item xs (int i - 1) = Inr (xs ! (i - 1))"
  using item_minus[of 1 i xs] by simp

lemma item_plus1: "i + 1 < length xs \<Longrightarrow> item xs (int i + 1) = Inr (xs ! (i + 1))"
  using item_plus[of i 1 xs] by simp

lemma two_above_eq: "i < length lines \<Longrightarrow> two_above lines i = Inr (spec_two_before lines i)"
  by (simp add: two_above_def spec_two_before_def item_minus2 item_minus1 del: One_nat_def)

lemma above_and_below_eq:
  assumes "i < length lines"
  shows "above_and_below lines i = Inr (spec_before_after lines i)"
proof -
  have a: "(if 0 < i then map_sum id Some (item lines (int i - 1)) else Inr None)
           = Inr (if 0 < i then Some (lines ! (i - 1)) else None)"
    using assms by (cases "0 < i") (simp_all only: item_minus1 if_True if_False map_sum.simps id_apply)
  have b: "(if i + 1 < length lines then map_sum id Some (item lines (int i + 1)) else Inr None)
           = Inr (if i + 1 < length lines then Some (lines ! (i + 1)) else None)"
    by (cases "i + 1 < length lines") (simp_all only: item_plus1 if_True if_False map_sum.simps id_apply)
  show ?thesis
    unfolding above_and_below_def spec_before_after_def a b by simp
qed

lemma next_line_has_amount_eq: "next_line_has_amount U lines i = Inr (continued U lines i)"
  by (cases "i + 1 < length lines")
     (simp_all only: next_line_has_amount_def continued_def item_plus1 if_True if_False
        sum.case simp_thms)

subsection \<open>Amounts within the decimal context\<close>

lemma boundedD:
  "bounded N m \<Longrightarrow> m p s c k = Some res \<Longrightarrow> length s \<le> N \<Longrightarrow> caps_within N c \<Longrightarrow>
     \<exists>p' s' c'. k p' s' c' = Some res \<and> length s' \<le> N \<and> caps_within N c'"
  unfolding bounded_def by blast

lemma iter_bounded:
  assumes "bounded N m"
  shows "iter m g n lo p s c k = Some res \<Longrightarrow> length s \<le> N \<Longrightarrow> caps_within N c \<Longrightarrow>
     \<exists>p' s' c'. k p' s' c' = Some res \<and> length s' \<le> N \<and> caps_within N c'"
proof (induction n arbitrary: lo p s c)
  case 0
  then have "k p s c = Some res" by (simp split: if_splits)
  with 0 show ?case by blast
next
  case (Suc n)
  let ?k = "\<lambda>p' s' c'. iter m g n (lo - 1) p' s' c' k"
  from Suc.prems(1) consider (more) "m p s c ?k = Some res" | (stop) "k p s c = Some res"
    by (simp split: if_splits option.splits)
  then show ?case
  proof cases
    case more
    from boundedD[OF assms more Suc.prems(2,3)] obtain p1 s1 c1 where
      1: "iter m g n (lo - 1) p1 s1 c1 k = Some res" "length s1 \<le> N" "caps_within N c1" by blast
    from Suc.IH[OF 1] show ?thesis .
  next
    case stop
    with Suc.prems show ?thesis by blast
  qed
qed

lemma rx_go_bounded: "bounded N (rx_go U r)"
proof (induction r)
  case (Ch cs)
  show ?case unfolding bounded_def
  proof (intro allI impI)
    fix p s c k res
    assume m: "rx_go U (Ch cs) p s c k = Some res" and n: "length s \<le> N" and c: "caps_within N c"
    from m obtain x xs where s: "s = x # xs" by (cases s) auto
    with m have "k (Some x) xs c = Some res" by (simp split: if_splits)
    moreover have "length xs \<le> N" using s n by simp
    ultimately show "\<exists>p' s' c'. k p' s' c' = Some res \<and> length s' \<le> N \<and> caps_within N c'"
      using c by blast
  qed
next
  case Eps
  show ?case unfolding bounded_def by auto
next
  case (Cat a b)
  show ?case unfolding bounded_def
  proof (intro allI impI)
    fix p s c k res
    assume m: "rx_go U (Cat a b) p s c k = Some res" and n: "length s \<le> N" and c: "caps_within N c"
    from m have "rx_go U a p s c (\<lambda>p' s' c'. rx_go U b p' s' c' k) = Some res" by simp
    from boundedD[OF Cat(1) this n c] obtain p1 s1 c1 where
      1: "rx_go U b p1 s1 c1 k = Some res" "length s1 \<le> N" "caps_within N c1" by blast
    from boundedD[OF Cat(2) 1]
    show "\<exists>p' s' c'. k p' s' c' = Some res \<and> length s' \<le> N \<and> caps_within N c'" .
  qed
next
  case (Alt a b)
  show ?case unfolding bounded_def
  proof (intro allI impI)
    fix p s c k res
    assume m: "rx_go U (Alt a b) p s c k = Some res" and n: "length s \<le> N" and c: "caps_within N c"
    from m consider "rx_go U a p s c k = Some res" | "rx_go U b p s c k = Some res"
      by (simp split: option.splits)
    then show "\<exists>p' s' c'. k p' s' c' = Some res \<and> length s' \<le> N \<and> caps_within N c'"
    proof cases
      case 1
      from boundedD[OF Alt(1) 1 n c] show ?thesis .
    next
      case 2
      from boundedD[OF Alt(2) 2 n c] show ?thesis .
    qed
  qed
next
  case (Rep lo hi g r)
  show ?case unfolding bounded_def
  proof (intro allI impI)
    fix p s c k res
    assume m: "rx_go U (Rep lo hi g r) p s c k = Some res" and n: "length s \<le> N" and c: "caps_within N c"
    from m have "iter (rx_go U r) g (case hi of None \<Rightarrow> length s | Some h \<Rightarrow> h) lo p s c k = Some res"
      by simp
    from iter_bounded[OF Rep this n c]
    show "\<exists>p' s' c'. k p' s' c' = Some res \<and> length s' \<le> N \<and> caps_within N c'" .
  qed
next
  case (Grp g r)
  show ?case unfolding bounded_def
  proof (intro allI impI)
    fix p s c k res
    assume m: "rx_go U (Grp g r) p s c k = Some res" and n: "length s \<le> N" and c: "caps_within N c"
    from m have "rx_go U r p s c (\<lambda>p' s' c'. k p' s' (c'(g \<mapsto> take (length s - length s') s))) = Some res"
      by simp
    from boundedD[OF Grp this n c] obtain p' s' c' where
      1: "k p' s' (c'(g \<mapsto> take (length s - length s') s)) = Some res" "length s' \<le> N"
         "caps_within N c'" by blast
    have "caps_within N (c'(g \<mapsto> take (length s - length s') s))"
      using 1(3) n by (simp add: caps_within_def)
    with 1(1,2) show "\<exists>p' s' c'. k p' s' c' = Some res \<and> length s' \<le> N \<and> caps_within N c'"
      by blast
  qed
next
  case Bol
  show ?case unfolding bounded_def
  proof (intro allI impI)
    fix p s c k res
    assume m: "rx_go U Bol p s c k = Some res" and n: "length s \<le> N" and c: "caps_within N c"
    from m have "k p s c = Some res" by (simp split: if_splits)
    with n c show "\<exists>p' s' c'. k p' s' c' = Some res \<and> length s' \<le> N \<and> caps_within N c'"
      by blast
  qed
next
  case Eol
  show ?case unfolding bounded_def
  proof (intro allI impI)
    fix p s c k res
    assume m: "rx_go U Eol p s c k = Some res" and n: "length s \<le> N" and c: "caps_within N c"
    from m have "k p s c = Some res" by (simp split: if_splits)
    with n c show "\<exists>p' s' c'. k p' s' c' = Some res \<and> length s' \<le> N \<and> caps_within N c'"
      by blast
  qed
next
  case Wb
  show ?case unfolding bounded_def
  proof (intro allI impI)
    fix p s c k res
    assume m: "rx_go U Wb p s c k = Some res" and n: "length s \<le> N" and c: "caps_within N c"
    from m have "k p s c = Some res" by (simp split: if_splits)
    with n c show "\<exists>p' s' c'. k p' s' c' = Some res \<and> length s' \<le> N \<and> caps_within N c'"
      by blast
  qed
qed

lemma re_match_group_length:
  assumes "re_match U r s = Some m" "m n = Some w"
  shows "length w \<le> length s"
proof -
  have "caps_within (length s) Map.empty" by (simp add: caps_within_def)
  from boundedD[OF rx_go_bounded assms(1)[unfolded re_match_def] _ this]
  have "caps_within (length s) m" by auto
  with assms(2) show ?thesis by (simp add: caps_within_def)
qed

lemma digit_value_range: "digit_value U c = Some v \<Longrightarrow> 0 \<le> v \<and> v \<le> 9"
  by (auto simp: digit_value_def split: if_splits option.splits)

lemma digits_fold_bound:
  assumes "\<forall>c \<in> set s. is_digit U c" "0 \<le> a" "a < 10 ^ n"
  shows "0 \<le> foldl (\<lambda>a c. case digit_value U c of Some v \<Rightarrow> 10 * a + v | None \<Rightarrow> a) a s
       \<and> foldl (\<lambda>a c. case digit_value U c of Some v \<Rightarrow> 10 * a + v | None \<Rightarrow> a) a s
           < 10 ^ (n + length s)"
  using assms
proof (induction s arbitrary: a n)
  case Nil
  then show ?case by simp
next
  case (Cons c s)
  from Cons.prems(1) obtain v where v: "digit_value U c = Some v" by (auto simp: is_digit_def)
  from digit_value_range[OF v] Cons.prems(2,3) have "0 \<le> 10 * a + v" "10 * a + v < 10 ^ Suc n"
    by simp_all
  from Cons.IH[OF _ this] Cons.prems(1) v show ?case by simp
qed

lemma digits_int_bound:
  "\<forall>c \<in> set s. is_digit U c \<Longrightarrow> 0 \<le> digits_int U s \<and> digits_int U s < 10 ^ length s"
  using digits_fold_bound[of s U 0 0] by (simp add: digits_int_def)

lemma ndigits_bound: "n < 10 ^ L \<Longrightarrow> 0 < L \<Longrightarrow> ndigits n \<le> L"
proof (induction L arbitrary: n)
  case 0
  then show ?case by simp
next
  case (Suc L)
  show ?case
  proof (cases "n < 10")
    case True
    then show ?thesis by (simp add: ndigits.simps)
  next
    case False
    with Suc.prems(1) have "0 < L" by (cases L) auto
    moreover from Suc.prems(1) have "n div 10 < 10 ^ L" by simp
    ultimately have "ndigits (n div 10) \<le> L" by (rule Suc.IH[rotated])
    with False show ?thesis by (subst ndigits.simps) simp
  qed
qed

lemma ndigits_pos: "0 < ndigits n"
  by (subst ndigits.simps) simp

lemma D_numeral_shape:
  assumes "numeral_text U w"
  shows "\<exists>fa b. D U w = Inr \<lparr>dec_neg = False, dec_coeff = digits_int U (fa @ b),
                               dec_exp = - int (length b)\<rparr>
           \<and> (\<forall>c \<in> set (fa @ b). is_digit U c) \<and> b \<noteq> [] \<and> length fa + length b < length w"
proof -
  let ?keep = "\<lambda>c. c \<noteq> 44 \<and> c \<noteq> (32::int)"
  from assms obtain a b where w: "w = a @ 46 # b"
    and a: "\<forall>c \<in> set a. is_digit U c \<or> c = 44" "\<exists>c \<in> set a. is_digit U c"
    and b: "b \<noteq> []" "\<forall>c \<in> set b. is_digit U c"
    unfolding numeral_text_def by blast
  have fb: "filter ?keep b = b" using b(2) digit_not_punct by (intro filter_True) blast
  have fa: "\<forall>c \<in> set (filter ?keep a). is_digit U c" using a(1) by auto
  have nd: "\<not> is_digit U 46" using digit_not_punct by blast
  have f: "filter ?keep w = filter ?keep a @ 46 # b" using w fb by simp
  have tw: "takeWhile (is_digit U) (filter ?keep a @ 46 # b) = filter ?keep a"
    and dw: "dropWhile (is_digit U) (filter ?keep a @ 46 # b) = 46 # b"
    using takeWhile_stop[OF fa nd] by simp_all
  have "w \<noteq> []" using w by simp
  then have D: "D U w = Inr \<lparr>dec_neg = False, dec_coeff = digits_int U (filter ?keep a @ b),
                               dec_exp = - int (length b)\<rparr>"
    using b by (simp add: D_def f parse_decimal_def tw dw list_all_iff)
  have len: "length (filter ?keep a) + length b < length w"
    using w by (simp add: less_Suc_eq_le)
  from D fa b len show ?thesis
    by (intro exI[of _ "filter ?keep a"] exI[of _ b]) auto
qed

lemma fix_number_ok:
  assumes "int (ndigits coeff) + expo \<le> 999998"
  shows "\<exists>n. fix_number coeff expo = Inr n"
proof (cases "coeff = 0")
  case True
  then show ?thesis by (simp add: fix_number_def)
next
  case False
  define e0 where "e0 = int (ndigits coeff) + expo - prec"
  define e1 where "e1 = max e0 Etiny"
  have 0: "\<not> Etop < e0" using assms by (simp add: e0_def Etop_def Emax_def prec_def)
  have 1: "e1 + 1 \<le> Etop"
    using assms
    by (simp add: e1_def e0_def Etop_def Emax_def prec_def Etiny_def Emin_def)
  then have 2: "\<not> Etop < e1 + 1" "\<not> Etop < e1" by simp_all
  show ?thesis
    using False 0 2
    by (simp add: fix_number_def Let_def e0_def[symmetric] e1_def[symmetric])
qed

lemma fix_context_ok:
  assumes "int (ndigits (dec_coeff d)) + dec_exp d \<le> 999998"
  shows "\<exists>n. fix_context d = Inr n"
proof -
  from fix_number_ok[OF assms] obtain c e where "fix_number (dec_coeff d) (dec_exp d) = Inr (c, e)"
    by (metis surj_pair)
  then show ?thesis by (simp add: fix_context_def)
qed

lemma fix_context_neg:
  assumes "fix_context d = Inr n"
  shows "dec_neg n = dec_neg d"
proof (cases "fix_number (dec_coeff d) (dec_exp d)")
  case (Inl e)
  with assms show ?thesis by (simp add: fix_context_def)
next
  case (Inr ce)
  with assms show ?thesis by (cases ce) (auto simp: fix_context_def)
qed

lemma dec_mul_sign_ok:
  assumes "\<forall>c \<in> set s. is_digit U c" "s \<noteq> []" "int (length s) - int B \<le> 999998"
  shows "\<exists>n. dec_mul_int \<lparr>dec_neg = False, dec_coeff = digits_int U s, dec_exp = - int B\<rparr>
               (if cr then 1 else - 1) = Inr n"
proof -
  from digits_int_bound[OF assms(1)] have "digits_int U s < 10 ^ length s" by simp
  from ndigits_bound[OF this] assms(2) have "ndigits (digits_int U s) \<le> length s" by simp
  with assms(3) have "int (ndigits (digits_int U s)) + (- int B) \<le> 999998" by simp
  then show ?thesis
    using fix_context_ok[of "\<lparr>dec_neg = (False \<noteq> ((if cr then 1 else - 1) < (0::int))),
        dec_coeff = digits_int U s, dec_exp = - int B\<rparr>"]
    by (cases cr) (simp_all add: dec_mul_int_def)
qed

lemma make_units_ok:
  assumes "grp_ok U (\<lambda>n w. n = 2 \<longrightarrow> numeral_text U w) r" "re_match U r s = Some m"
    "length s \<le> 1000000"
  shows "\<exists>u. make_units U self (grp m 2) cr = Inr u"
proof (cases "m 2")
  case None
  then show ?thesis
    by (cases cr)
       (simp_all add: grp_def make_units_def D_def dec_mul_int_def fix_context_def fix_number_def)
next
  case (Some w)
  from re_match_groups[OF assms(1,2) Some] have "numeral_text U w" by simp
  from D_numeral_shape[OF this] obtain fa b where
    D: "D U w = Inr \<lparr>dec_neg = False, dec_coeff = digits_int U (fa @ b),
                       dec_exp = - int (length b)\<rparr>"
    and dg: "\<forall>c \<in> set (fa @ b). is_digit U c" and b: "b \<noteq> []"
    and len: "length fa + length b < length w" by blast
  from re_match_group_length[OF assms(2) Some] assms(3) have "length w \<le> 1000000" by simp
  with len have "int (length (fa @ b)) - int (length b) \<le> 999998" using b
    by (cases b) simp_all
  from dec_mul_sign_ok[OF dg _ this, of cr] b obtain n where
    "dec_mul_int \<lparr>dec_neg = False, dec_coeff = digits_int U (fa @ b), dec_exp = - int (length b)\<rparr>
       (if cr then 1 else - 1) = Inr n" by auto
  with D Some show ?thesis by (simp add: make_units_def grp_def)
qed

lemma matched_iff: "matched m \<longleftrightarrow> (\<exists>c. m = Some c)"
  by (cases m) (simp_all add: matched_def)

lemma parse_amount_annotated:
  assumes "i < length lines" "amount_annotated_shape U (lines ! i)"
    "length (lines ! i) \<le> 1000000"
  shows "\<exists>f u. parse_line U self lines i =
           Inr (StandardLine f u (fst (spec_two_before lines i)) (snd (spec_two_before lines i)) 0)"
proof -
  from assms(2) obtain m where m: "re_match U alt_pattern (lines ! i) = Some m"
    and na: "\<not> advance_branch U (lines ! i)"
    by (auto simp: amount_annotated_shape_def matched_iff)
  from make_units_ok[OF grp_ok_alt_pattern m assms(3)] obtain u where
    u: "make_units U self (grp m 2) (truthy (m 1)) = Inr u" by blast
  show ?thesis
    using assms(1) na m u
    by (simp add: parse_line_def item_nat parse_standard_def parse_amount_format_def two_above_eq
        split: prod.splits)
qed

lemma parse_plain:
  assumes "i < length lines" "plain_shape U (lines ! i)" "length (lines ! i) \<le> 1000000"
  shows "\<exists>f u. parse_line U self lines i =
           Inr (if continued U lines i
                then StandardLine f u (fst (spec_two_before lines i))
                       (snd (spec_two_before lines i)) 1
                else StandardLine f u (fst (spec_before_after lines i))
                       (snd (spec_before_after lines i)) 0)"
proof -
  from assms(2) obtain m where m: "re_match U pattern (lines ! i) = Some m"
    and na: "\<not> advance_branch U (lines ! i)" and nalt: "re_match U alt_pattern (lines ! i) = None"
    by (cases "re_match U alt_pattern (lines ! i)") (auto simp: plain_shape_def matched_iff)
  from make_units_ok[OF grp_ok_pattern m assms(3)] obtain u where
    u: "make_units U self (grp m 2) (truthy (m 1)) = Inr u" by blast
  show ?thesis
    using assms(1) na m nalt u
    by (simp add: parse_line_def item_nat parse_standard_def parse_regular_format_def
        two_above_eq above_and_below_eq next_line_has_amount_eq Let_def split: prod.splits)
qed

lemma parse_no_shape:
  assumes "i < length lines" "no_shape U (lines ! i)"
  shows "parse_line U self lines i = Inr NoMatch"
proof (cases "advance_branch U (lines ! i)")
  case True
  with assms(2) have "re_match U advance_payment_pattern (lines ! i) = None"
    "re_match U general_pattern (lines ! i) = None"
    by (simp_all add: no_shape_def matched_iff)
  with True assms(1) show ?thesis
    by (simp add: parse_line_def item_nat parse_advance_def)
next
  case False
  with assms(2) have "re_match U alt_pattern (lines ! i) = None"
    "re_match U pattern (lines ! i) = None"
    by (simp_all add: no_shape_def matched_iff)
  with False assms(1) show ?thesis
    by (simp add: parse_line_def item_nat parse_standard_def)
qed

lemma parse_line_total:
  assumes "i < length lines" "length (lines ! i) \<le> 1000000"
  shows "\<exists>p. parse_line U self lines i = Inr p"
proof (cases "advance_branch U (lines ! i)")
  case True
  show ?thesis
  proof (cases "re_match U advance_payment_pattern (lines ! i)")
    case None
    with True assms show ?thesis
      by (simp add: parse_line_def item_nat parse_advance_def split: option.splits)
  next
    case (Some m)
    from make_units_ok[OF grp_ok_advance_payment_pattern Some assms(2)] obtain u where
      "make_units U self (grp m 2) (truthy (m 1)) = Inr u" by blast
    with True Some assms show ?thesis
      by (simp add: parse_line_def item_nat parse_advance_def)
  qed
next
  case False
  show ?thesis
  proof (cases "no_shape U (lines ! i)")
    case True
    from parse_no_shape[OF assms(1) True] show ?thesis by simp
  next
    case ns: False
    with False have "amount_annotated_shape U (lines ! i) \<or> plain_shape U (lines ! i)"
      by (auto simp: no_shape_def amount_annotated_shape_def plain_shape_def)
    then show ?thesis
      using parse_amount_annotated[OF assms(1) _ assms(2), of U self]
        parse_plain[OF assms(1) _ assms(2), of U self] by auto
  qed
qed

lemma step_no_match:
  "parse_line U self lines i = Inr NoMatch \<Longrightarrow> step U self fp lines i units = Inr (None, 0, units)"
  by (simp add: step_def)

lemma step_standard:
  assumes "parse_line U self lines i = Inr (StandardLine f u payee description extra)"
    "strptime U (posting_date f) = Inr d" "transaction_currency f = Some tc"
  shows "\<exists>entry. step U self fp lines i units = Inr (Some entry, extra, Some u)
           \<and> txn_payee entry = payee \<and> txn_date entry = d
           \<and> txn_postings entry = [\<lparr>post_account = importer_account self, post_units = u\<rparr>]"
  using assms by (simp add: step_def make_entry_def account_def)

lemma step_advance:
  assumes "parse_line U self lines i = Inr (AdvanceLine f (Some u))"
    "strptime U (posting_date f) = Inr d" "transaction_currency f = Some tc"
  shows "\<exists>entry. step U self fp lines i units = Inr (Some entry, 0, Some u)"
  using assms by (simp add: step_def make_entry_def)

lemma step_advance_loose:
  assumes "parse_line U self lines i = Inr (AdvanceLine f None)"
    "strptime U (posting_date f) = Inr d" "transaction_currency f = Some tc"
  shows "\<exists>entry. step U self fp lines i (Some u) = Inr (Some entry, 0, Some u)"
  using assms by (simp add: step_def make_entry_def)

lemma complete_fieldsD:
  assumes "complete_fields U f"
  shows "\<exists>d tc. strptime U (posting_date f) = Inr d \<and> transaction_currency f = Some tc"
  using assms by (cases "strptime U (posting_date f)") (auto simp: complete_fields_def raises_def)

lemma parse_shaped:
  assumes "i < length lines" "\<not> no_shape U (lines ! i)" "length (lines ! i) \<le> 1000000"
  shows "(\<exists>f assigned. parse_line U self lines i = Inr (AdvanceLine f assigned))
       \<or> (\<exists>f u payee description extra.
            parse_line U self lines i = Inr (StandardLine f u payee description extra))"
proof (cases "advance_branch U (lines ! i)")
  case True
  show ?thesis
  proof (cases "re_match U advance_payment_pattern (lines ! i)")
    case None
    with True assms(2) obtain m where "re_match U general_pattern (lines ! i) = Some m"
      by (auto simp: no_shape_def matched_iff)
    with None True assms(1) show ?thesis
      by (simp add: parse_line_def item_nat parse_advance_def)
  next
    case (Some m)
    from make_units_ok[OF grp_ok_advance_payment_pattern Some assms(3)] obtain u where
      "make_units U self (grp m 2) (truthy (m 1)) = Inr u" by blast
    with True Some assms(1) show ?thesis
      by (simp add: parse_line_def item_nat parse_advance_def)
  qed
next
  case False
  with assms(2) have "amount_annotated_shape U (lines ! i) \<or> plain_shape U (lines ! i)"
    by (auto simp: no_shape_def amount_annotated_shape_def plain_shape_def)
  then show ?thesis
  proof
    assume "amount_annotated_shape U (lines ! i)"
    from parse_amount_annotated[OF assms(1) this assms(3), of self] show ?thesis by blast
  next
    assume "plain_shape U (lines ! i)"
    from parse_plain[OF assms(1) this assms(3), of self] show ?thesis
      by (cases "continued U lines i") auto
  qed
qed

lemma step_record:
  assumes "i < length lines" "\<not> no_shape U (lines ! i)" "length (lines ! i) \<le> 1000000"
  shows "\<exists>f assigned extra.
           (parse_line U self lines i = Inr (AdvanceLine f assigned) \<and> extra = 0
            \<or> (\<exists>u payee description.
                 parse_line U self lines i = Inr (StandardLine f u payee description extra)
                 \<and> assigned = Some u))
           \<and> (complete_fields U f \<and> (assigned \<noteq> None \<or> units \<noteq> None) \<longrightarrow>
                (\<exists>entry units'. step U self fp lines i units = Inr (Some entry, extra, units')
                   \<and> extract_loop U self fp lines i units entries =
                       extract_loop U self fp lines (i + extra + 1) units' (entries @ [entry])))"
proof -
  have loop: "extract_loop U self fp lines i units entries =
                extract_loop U self fp lines (i + extra + 1) units' (entries @ [entry])"
    if "step U self fp lines i units = Inr (Some entry, extra, units')" for entry extra units'
    using extract_loop_unfold[OF assms(1) that, of entries] by simp
  from parse_shaped[OF assms, of self] consider
    (adv) f assigned where "parse_line U self lines i = Inr (AdvanceLine f assigned)"
  | (std) f u payee description extra where
      "parse_line U self lines i = Inr (StandardLine f u payee description extra)"
    by blast
  then show ?thesis
  proof cases
    case adv
    have "\<exists>entry units'. step U self fp lines i units = Inr (Some entry, 0, units')"
      if c: "complete_fields U f" and a: "assigned \<noteq> None \<or> units \<noteq> None"
    proof -
      from complete_fieldsD[OF c] obtain d tc where
        d: "strptime U (posting_date f) = Inr d" "transaction_currency f = Some tc" by blast
      show ?thesis
      proof (cases assigned)
        case (Some u)
        from step_advance[OF adv[unfolded Some] d, of fp units] show ?thesis by blast
      next
        case None
        with a obtain u where "units = Some u" by auto
        with step_advance_loose[OF adv[unfolded None] d, of fp u] show ?thesis by blast
      qed
    qed
    with loop adv show ?thesis by (metis (no_types, lifting))
  next
    case std
    have "\<exists>entry units'. step U self fp lines i units = Inr (Some entry, extra, units')"
      if c: "complete_fields U f"
    proof -
      from complete_fieldsD[OF c] obtain d tc where
        d: "strptime U (posting_date f) = Inr d" "transaction_currency f = Some tc" by blast
      from step_standard[OF std d, of fp units] show ?thesis by blast
    qed
    with loop std show ?thesis by (metis (no_types, lifting))
  qed
qed

lemma well_formed_step:
  assumes "i < length lines" "length (lines ! i) \<le> 1000000" "well_formed U self lines i"
  shows "\<exists>entry extra units'. step U self fp lines i units = Inr (entry, extra, units')"
proof -
  from parse_line_total[OF assms(1,2)] obtain p where Inr: "parse_line U self lines i = Inr p"
    by blast
  show ?thesis
  proof (cases p)
    case NoMatch
    with Inr show ?thesis by (simp add: step_no_match)
  next
    case (AdvanceLine f a)
    with Inr assms(3) obtain u d tc where "a = Some u" "strptime U (posting_date f) = Inr d"
      "transaction_currency f = Some tc"
      by (cases "strptime U (posting_date f)")
         (auto simp: well_formed_def complete_fields_def raises_def)
    with Inr AdvanceLine step_advance[of U self lines i f u d tc fp units] show ?thesis by auto
  next
    case (StandardLine f u payee description extra)
    with Inr assms(3) obtain d tc where "strptime U (posting_date f) = Inr d"
      "transaction_currency f = Some tc"
      by (cases "strptime U (posting_date f)")
         (auto simp: well_formed_def complete_fields_def raises_def)
    with Inr StandardLine step_standard[of U self lines i f u payee description extra d tc fp units]
    show ?thesis by auto
  qed
qed

lemma extract_loop_well_formed:
  assumes "\<forall>j < length lines. length (lines ! j) \<le> 1000000 \<and> well_formed U self lines j"
  shows "\<exists>result. extract_loop U self fp lines i units entries = Inr result"
proof (induction "length lines - i" arbitrary: i units entries rule: less_induct)
  case less
  show ?case
  proof (cases "i < length lines")
    case False
    then show ?thesis by (simp add: extract_loop_done)
  next
    case True
    with assms have "length (lines ! i) \<le> 1000000" "well_formed U self lines i" by simp_all
    from well_formed_step[OF True this] obtain entry extra units' where
      s: "step U self fp lines i units = Inr (entry, extra, units')" by blast
    have "length lines - (i + extra + 1) < length lines - i" using True by simp
    from less[OF this] obtain result where
      "extract_loop U self fp lines (i + extra + 1) units'
         (case entry of Some e \<Rightarrow> entries @ [e] | None \<Rightarrow> entries) = Inr result" by blast
    with extract_loop_unfold[OF True s] show ?thesis by simp
  qed
qed

subsection \<open>The units assigned in a round\<close>

lemma make_units_raw:
  assumes "make_units U self amt cr = Inr u" "amount f = amt" "is_credit f = cr"
  shows "raw_units U self f u"
proof (cases "D U amt")
  case (Inl e)
  with assms(1) show ?thesis by (simp add: make_units_def)
next
  case (Inr d)
  show ?thesis
  proof (cases "dec_mul_int d (if cr then 1 else - 1)")
    case (Inl e)
    with Inr assms(1) show ?thesis by (simp add: make_units_def)
  next
    case n: (Inr n)
    with Inr assms show ?thesis by (auto simp: make_units_def raw_units_def)
  qed
qed

lemma parse_advance_units:
  assumes "parse_advance U self line = Inr (AdvanceLine f (Some u))"
  shows "raw_units U self f u"
proof (cases "re_match U advance_payment_pattern line")
  case None
  with assms show ?thesis
    by (cases "re_match U general_pattern line") (simp_all add: parse_advance_def)
next
  case (Some m)
  show ?thesis
  proof (cases "make_units U self (grp m 2) (truthy (m 1))")
    case (Inl e)
    with Some assms show ?thesis by (simp add: parse_advance_def)
  next
    case (Inr u')
    with Some assms have "u' = u" "amount f = grp m 2" "is_credit f = truthy (m 1)"
      by (auto simp: parse_advance_def)
    with Inr show ?thesis using make_units_raw by blast
  qed
qed

lemma parse_amount_format_units:
  assumes "parse_amount_format U self lines i m = Inr (StandardLine f u payee description extra)"
  shows "raw_units U self f u"
proof (cases "make_units U self (grp m 2) (truthy (m 1))")
  case (Inl e)
  with assms show ?thesis by (simp add: parse_amount_format_def)
next
  case (Inr u')
  with assms have "u' = u" "amount f = grp m 2" "is_credit f = truthy (m 1)"
    by (auto simp: parse_amount_format_def split: sum.splits prod.splits)
  with Inr show ?thesis using make_units_raw by blast
qed

lemma parse_regular_format_units:
  assumes "parse_regular_format U self lines i m = Inr (StandardLine f u payee description extra)"
  shows "raw_units U self f u"
proof (cases "make_units U self (grp m 2) (truthy (m 1))")
  case (Inl e)
  with assms show ?thesis by (simp add: parse_regular_format_def)
next
  case (Inr u')
  with assms have "u' = u" "amount f = grp m 2" "is_credit f = truthy (m 1)"
    by (auto simp: parse_regular_format_def Let_def split: sum.splits prod.splits bool.splits)
  with Inr show ?thesis using make_units_raw by blast
qed

lemma parse_standard_units:
  assumes "parse_standard U self lines i line = Inr (StandardLine f u payee description extra)"
  shows "raw_units U self f u"
proof (cases "re_match U alt_pattern line")
  case (Some m)
  with assms parse_amount_format_units show ?thesis by (simp add: parse_standard_def)
next
  case None
  show ?thesis
  proof (cases "re_match U pattern line")
    case (Some m)
    with None assms parse_regular_format_units show ?thesis by (simp add: parse_standard_def)
  next
    case n: None
    with None assms show ?thesis by (simp add: parse_standard_def)
  qed
qed

lemma parse_amount_format_standard:
  "parse_amount_format U self lines i m = Inr p \<Longrightarrow> \<exists>f u payee description extra. p = StandardLine f u payee description extra"
proof (cases "make_units U self (grp m 2) (truthy (m 1))")
  case (Inl e)
  assume "parse_amount_format U self lines i m = Inr p"
  with Inl show ?thesis by (simp add: parse_amount_format_def)
next
  case (Inr u)
  assume a: "parse_amount_format U self lines i m = Inr p"
  show ?thesis
  proof (cases "two_above lines i")
    case (Inl e)
    with Inr a show ?thesis by (simp add: parse_amount_format_def)
  next
    case r: (Inr pd)
    with Inr a show ?thesis by (cases pd) (auto simp: parse_amount_format_def)
  qed
qed

lemma parse_regular_format_standard:
  "parse_regular_format U self lines i m = Inr p \<Longrightarrow> \<exists>f u payee description extra. p = StandardLine f u payee description extra"
proof (cases "make_units U self (grp m 2) (truthy (m 1))")
  case (Inl e)
  assume "parse_regular_format U self lines i m = Inr p"
  with Inl show ?thesis by (simp add: parse_regular_format_def)
next
  case (Inr u)
  assume a: "parse_regular_format U self lines i m = Inr p"
  show ?thesis
  proof (cases "next_line_has_amount U lines i")
    case (Inl e)
    with Inr a show ?thesis by (simp add: parse_regular_format_def)
  next
    case r: (Inr b)
    show ?thesis
    proof (cases b)
      case True
      show ?thesis
      proof (cases "two_above lines i")
        case (Inl e)
        with Inr r True a show ?thesis by (simp add: parse_regular_format_def)
      next
        case t: (Inr pd)
        with Inr r True a show ?thesis by (cases pd) (auto simp: parse_regular_format_def)
      qed
    next
      case False
      show ?thesis
      proof (cases "above_and_below lines i")
        case (Inl e)
        with Inr r False a show ?thesis by (simp add: parse_regular_format_def)
      next
        case t: (Inr pd)
        with Inr r False a show ?thesis by (cases pd) (auto simp: parse_regular_format_def)
      qed
    qed
  qed
qed

lemma parse_standard_result:
  assumes "parse_standard U self lines i line = Inr p"
  shows "p = NoMatch \<or> (\<exists>f u payee description extra. p = StandardLine f u payee description extra)"
proof (cases "re_match U alt_pattern line")
  case (Some m)
  with assms parse_amount_format_standard[of U self lines i m p] show ?thesis
    by (simp add: parse_standard_def)
next
  case None
  show ?thesis
  proof (cases "re_match U pattern line")
    case (Some m)
    with None assms parse_regular_format_standard[of U self lines i m p] show ?thesis
      by (simp add: parse_standard_def)
  next
    case n: None
    with None assms show ?thesis by (simp add: parse_standard_def)
  qed
qed

lemma parse_advance_result:
  assumes "parse_advance U self line = Inr p"
  shows "p = NoMatch \<or> (\<exists>f a. p = AdvanceLine f a)"
proof (cases "re_match U advance_payment_pattern line")
  case None
  with assms show ?thesis
    by (cases "re_match U general_pattern line") (auto simp: parse_advance_def)
next
  case (Some m)
  with assms show ?thesis
    by (cases "make_units U self (grp m 2) (truthy (m 1))") (auto simp: parse_advance_def)
qed

lemma assigned_units_raw:
  assumes "parse_line U self lines i = Inr p"
    "p = AdvanceLine f (Some u) \<or> p = StandardLine f u payee description extra"
  shows "raw_units U self f u"
proof (cases "item lines (int i)")
  case (Inl e)
  with assms(1) show ?thesis by (simp add: parse_line_def)
next
  case (Inr line)
  show ?thesis
  proof (cases "advance_branch U line")
    case True
    with Inr assms(1) have a: "parse_advance U self line = Inr p" by (simp add: parse_line_def)
    from parse_advance_result[OF a] assms(2) have "p = AdvanceLine f (Some u)" by auto
    with a parse_advance_units show ?thesis by blast
  next
    case False
    with Inr assms(1) have a: "parse_standard U self lines i line = Inr p"
      by (simp add: parse_line_def)
    from parse_standard_result[OF a] assms(2)
    have "p = StandardLine f u payee description extra" by auto
    with a parse_standard_units show ?thesis by blast
  qed
qed

lemma parse_decimal_not_negative: "parse_decimal U w = Inr d \<Longrightarrow> \<not> dec_neg d"
  by (cases "dropWhile (is_digit U) w")
     (auto simp: parse_decimal_def Let_def split: if_splits)

lemma D_not_negative: "D U w = Inr d \<Longrightarrow> \<not> dec_neg d"
  by (cases "w = []") (auto simp: D_def dest: parse_decimal_not_negative)

lemma raw_units_sign:
  assumes "raw_units U self f u"
  shows "dec_neg (amt_number u) = (\<not> is_credit f)"
proof -
  from assms obtain d n where d: "D U (amount f) = Inr d"
    "dec_mul_int d (if is_credit f then 1 else - 1) = Inr n"
    "u = \<lparr>amt_number = n, amt_currency = currency self\<rparr>"
    unfolding raw_units_def by blast
  from fix_context_neg[OF d(2)[unfolded dec_mul_int_def]] D_not_negative[OF d(1)] d(3)
  show ?thesis by simp
qed

subsection \<open>The sanitizer\<close>

lemma clean_loop_append:
  "clean_loop U ls acc = acc @ filter (\<lambda>line. \<not> any_match U line) ls"
  by (induction ls arbitrary: acc) simp_all

text \<open>
  C5. The sanitizer drops exactly the lines in which \<open>re.match\<close> finds one of the
  boilerplate patterns at the start, and keeps all other lines in their order: its result
  is that filter of the input lines, a subsequence of them.
\<close>

theorem sanitizer_drops_boilerplate:
  "clean_loop U ls [] = filter (\<lambda>line. \<not> any_match U line) ls
   \<and> subseq (clean_loop U ls []) ls
   \<and> set (clean_loop U ls []) = {line \<in> set ls. \<not> any_match U line}"
  by (simp add: clean_loop_append)

subsection \<open>filename and date\<close>

text \<open>
  C10. \<open>filename\<close> returns the constant \<open>'maybank.pdf'\<close>, whatever the path and the
  configuration.
\<close>

theorem filename_constant:
  "filename self fp = cps ''maybank.pdf'' \<and> filename self fp = filename self' fp'"
  by (simp add: filename_def)

text \<open>
  C7. \<open>date\<close> raises \<open>NameError\<close> on every document: the module binds no
  \<open>pdf_to_text\<close>. It neither returns the date of a "Date:" line nor an absent value.
\<close>

theorem date_raises_name_error:
  "date pdf_to_text parse_datetime U self doc = Inl NameError"
  by (simp add: date_def module_names_def)

subsection \<open>The scenarios of the specification\<close>

text \<open>
  C2. On the single line \<^verbatim>\<open>150.00 2.00 Some Merchant 01/05/23 02/05/23\<close> with currency SAR,
  \<open>extract\<close> produces no record: the line has no currency code, \<open>transaction_currency\<close>
  is \<open>None\<close>, and building the narration raises \<open>TypeError\<close>.
\<close>

theorem scenario_plain_raises:
  "extract_txns ascii_only sar_importer
     (pdf_of [text_of [''150.00 2.00 Some Merchant 01/05/23 02/05/23'']]) = Inl TypeError"
  by code_simp

text \<open>
  C3. On the lines "Amazon", "Online purchase" and
  \<^verbatim>\<open>75.00 1.50 Amount: 73.50 USD 05/07/23 06/07/23\<close> the third line is read with payee
  "Amazon", description "Online purchase" and transaction amount 73.50, but with no
  transaction currency: the text after the "Amount:" field is \<open>USD\<close> alone, where the
  search for an amount followed by a code finds nothing. \<open>extract\<close> raises \<open>TypeError\<close>.
\<close>

theorem scenario_amount_raises:
  "(case parse_line ascii_only sar_importer
           (map cps [''Amazon'', ''Online purchase'',
                     ''75.00 1.50 Amount: 73.50 USD 05/07/23 06/07/23'']) 2 of
      Inr (StandardLine f u payee description extra) \<Rightarrow>
        payee = Some (cps ''Amazon'') \<and> description = Some (cps ''Online purchase'')
        \<and> transaction_amount f = cps ''73.50'' \<and> transaction_currency f = None
    | _ \<Rightarrow> False)
   \<and> extract_txns ascii_only sar_importer
        (pdf_of [text_of [''Amazon'', ''Online purchase'',
                          ''75.00 1.50 Amount: 73.50 USD 05/07/23 06/07/23'']])
      = Inl TypeError"
  by code_simp

subsection \<open>The posted amount\<close>

text \<open>
  C4. A line that only the looser Advance Payment pattern matches does not assign
  \<open>units\<close>: its record posts the amount of the last record before it. Here a credit of
  20.00 posts the -10.00 of the line above. (In every other branch the units are the raw
  amount of the line with the sign of its "CR" token: \<open>assigned_units_raw\<close> and
  \<open>raw_units_sign\<close> above.)
\<close>

theorem loose_advance_posts_stale_units:
  "map_sum id (map narration_and_numbers)
     (extract_txns ascii_only sar_importer
        (pdf_of [text_of [''10.00 1.00 Shop 9.00 USD 01/05/23 02/05/23'',
                          ''CR 20.00 0.00 Advance Payment 20.00 SAR 10/06/23 11/06/23'']]))
   = Inr [(cps ''-9.00 USD on 02/05/23'',
           [\<lparr>dec_neg = True, dec_coeff = 1000, dec_exp = - 2\<rparr>]),
          (cps ''CR 20.00 SAR on 11/06/23'',
           [\<lparr>dec_neg = True, dec_coeff = 1000, dec_exp = - 2\<rparr>])]"
  by code_simp

subsection \<open>Lines that raise, lines that are skipped\<close>

text \<open>
  C1, as amended. A line of no shape is skipped without raising: the round appends no
  record, leaves \<open>units\<close> as it is and moves the cursor by one. A line that has a shape
  and at most 1000000 characters (its amount is then within the decimal context) is read
  without raising, as an Advance Payment line or as a standard line; when its fields are
  complete, that is, its posting date is a calendar date and a transaction currency was
  found, and \<open>units\<close> is bound, by the line itself or, for an Advance Payment line that
  only the looser pattern matches, by an earlier line, the round appends one record and
  the loop goes on behind the lines that the round has read. \<open>extract\<close> raises nothing
  and returns its records on every document whose lines have at most 1000000 characters
  and are all well formed.
\<close>

theorem unmatched_skipped_matching_recorded:
  "(i < length lines \<and> no_shape U (lines ! i) \<longrightarrow>
      step U self fp lines i units = Inr (None, 0, units)
      \<and> extract_loop U self fp lines i units entries =
          extract_loop U self fp lines (i + 1) units entries)
   \<and> (i < length lines \<and> \<not> no_shape U (lines ! i) \<and> length (lines ! i) \<le> 1000000 \<longrightarrow>
        (\<exists>f assigned extra.
           (parse_line U self lines i = Inr (AdvanceLine f assigned) \<and> extra = 0
            \<or> (\<exists>u payee description.
                 parse_line U self lines i = Inr (StandardLine f u payee description extra)
                 \<and> assigned = Some u))
           \<and> (complete_fields U f \<and> (assigned \<noteq> None \<or> units \<noteq> None) \<longrightarrow>
                (\<exists>entry units'. step U self fp lines i units = Inr (Some entry, extra, units')
                   \<and> extract_loop U self fp lines i units entries =
                       extract_loop U self fp lines (i + extra + 1) units' (entries @ [entry])))))
   \<and> ((\<forall>j < length (text_to_lines U (join [10] (page_texts doc))).
          length (text_to_lines U (join [10] (page_texts doc)) ! j) \<le> 1000000
          \<and> well_formed U self (text_to_lines U (join [10] (page_texts doc))) j) \<longrightarrow>
       (\<exists>result. extract_txns U self doc = Inr result))"
proof (intro conjI impI)
  assume a: "i < length lines \<and> no_shape U (lines ! i)"
  then have s: "step U self fp lines i units = Inr (None, 0, units)"
    using parse_no_shape[of i lines U self] by (simp add: step_no_match)
  then show "step U self fp lines i units = Inr (None, 0, units)" .
  from a extract_loop_unfold[OF _ s, of entries]
  show "extract_loop U self fp lines i units entries =
          extract_loop U self fp lines (i + 1) units entries" by simp
next
  assume a: "i < length lines \<and> \<not> no_shape U (lines ! i) \<and> length (lines ! i) \<le> 1000000"
  then have "i < length lines" "\<not> no_shape U (lines ! i)" "length (lines ! i) \<le> 1000000"
    by simp_all
  from step_record[OF this]
  show "\<exists>f assigned extra.
           (parse_line U self lines i = Inr (AdvanceLine f assigned) \<and> extra = 0
            \<or> (\<exists>u payee description.
                 parse_line U self lines i = Inr (StandardLine f u payee description extra)
                 \<and> assigned = Some u))
           \<and> (complete_fields U f \<and> (assigned \<noteq> None \<or> units \<noteq> None) \<longrightarrow>
                (\<exists>entry units'. step U self fp lines i units = Inr (Some entry, extra, units')
                   \<and> extract_loop U self fp lines i units entries =
                       extract_loop U self fp lines (i + extra + 1) units' (entries @ [entry])))" .
next
  assume "\<forall>j < length (text_to_lines U (join [10] (page_texts doc))).
            length (text_to_lines U (join [10] (page_texts doc)) ! j) \<le> 1000000
            \<and> well_formed U self (text_to_lines U (join [10] (page_texts doc))) j"
  from extract_loop_well_formed[OF this]
  show "\<exists>result. extract_txns U self doc = Inr result"
    by (simp add: extract_txns_def)
qed

lemma mixed_text_lines:
  "text_to_lines ascii_only (join [10] (page_texts (pdf_of [text_of mixed_lines])))
     = map cps mixed_lines"
  by code_simp

lemma mixed_parse: "parse_line ascii_only sar_importer (map cps mixed_lines) 2 =
   Inr (StandardLine
     \<lparr>is_credit = False, amount = cps ''10.00'', fee = cps ''1.00'',
      transaction_amount = cps ''9.00'', transaction_currency = Some (cps ''USD''),
      posting_date = cps ''01/05/23'', transaction_date = cps ''02/05/23''\<rparr>
     \<lparr>amt_number = \<lparr>dec_neg = True, dec_coeff = 1000, dec_exp = - 2\<rparr>, amt_currency = cps ''SAR''\<rparr>
     (Some (cps ''CR 1,250.50 0.00 Advance Payment XYZ 1,250.50 SAR 10/06/23 11/06/23''))
     None 0)"
  by code_simp

lemma mixed_complete:
  "complete_fields ascii_only
     \<lparr>is_credit = False, amount = cps ''10.00'', fee = cps ''1.00'',
      transaction_amount = cps ''9.00'', transaction_currency = Some (cps ''USD''),
      posting_date = cps ''01/05/23'', transaction_date = cps ''02/05/23''\<rparr>"
  by code_simp

theorem unmatched_skipped_matching_recorded_witness:
  "0 < length (map cps mixed_lines) \<and> no_shape ascii_only (map cps mixed_lines ! 0)
   \<and> step ascii_only sar_importer (cps ''statement.pdf'') (map cps mixed_lines) 0 None
       = Inr (None, 0, None)
   \<and> 2 < length (map cps mixed_lines) \<and> \<not> no_shape ascii_only (map cps mixed_lines ! 2)
   \<and> length (map cps mixed_lines ! 2) \<le> 1000000
   \<and> (\<exists>entry units'.
         step ascii_only sar_importer (cps ''statement.pdf'') (map cps mixed_lines) 2 None
           = Inr (Some entry, 0, units'))
   \<and> well_formed ascii_only sar_importer (map cps mixed_lines) 0
   \<and> well_formed ascii_only sar_importer (map cps mixed_lines) 1
   \<and> well_formed ascii_only sar_importer (map cps mixed_lines) 2
   \<and> (\<exists>result. extract_txns ascii_only sar_importer (pdf_of [text_of mixed_lines]) = Inr result)"
proof -
  have 0: "0 < length (map cps mixed_lines)" by code_simp
  have 1: "no_shape ascii_only (map cps mixed_lines ! 0)" by code_simp
  have 2: "2 < length (map cps mixed_lines)" by code_simp
  have 3: "\<not> no_shape ascii_only (map cps mixed_lines ! 2)" by code_simp
  have l0: "length (map cps mixed_lines ! 0) \<le> 1000000" by (simp add: mixed_lines_def cps_def)
  have l1: "length (map cps mixed_lines ! 1) \<le> 1000000" by (simp add: mixed_lines_def cps_def)
  have l2: "length (map cps mixed_lines ! 2) \<le> 1000000" by (simp add: mixed_lines_def cps_def)
  have w0: "well_formed ascii_only sar_importer (map cps mixed_lines) 0" by code_simp
  have w1: "well_formed ascii_only sar_importer (map cps mixed_lines) 1" by code_simp
  have w2: "well_formed ascii_only sar_importer (map cps mixed_lines) 2" by code_simp
  have len: "length (map cps mixed_lines) = 3" by code_simp
  have all: "\<forall>j < length (map cps mixed_lines).
               length (map cps mixed_lines ! j) \<le> 1000000
               \<and> well_formed ascii_only sar_importer (map cps mixed_lines) j"
  proof (intro allI impI)
    fix j assume "j < length (map cps mixed_lines)"
    with len have "j = 0 \<or> j = 1 \<or> j = 2" by arith
    with w0 w1 w2 l0 l1 l2
    show "length (map cps mixed_lines ! j) \<le> 1000000
            \<and> well_formed ascii_only sar_importer (map cps mixed_lines) j" by auto
  qed
  note t = unmatched_skipped_matching_recorded[of 0 "map cps mixed_lines" ascii_only
      sar_importer "cps ''statement.pdf''" None "[]" "pdf_of [text_of mixed_lines]"]
  from t 0 1 have s: "step ascii_only sar_importer (cps ''statement.pdf'') (map cps mixed_lines) 0 None
       = Inr (None, 0, None)" by blast
  from t all have r: "\<exists>result. extract_txns ascii_only sar_importer (pdf_of [text_of mixed_lines]) = Inr result"
    unfolding mixed_text_lines by blast
  note t2 = unmatched_skipped_matching_recorded[of 2 "map cps mixed_lines" ascii_only
      sar_importer "cps ''statement.pdf''" None "[]" "pdf_of [text_of mixed_lines]"]
  from t2 2 3 l2 obtain f assigned extra where
    p: "parse_line ascii_only sar_importer (map cps mixed_lines) 2 = Inr (AdvanceLine f assigned)
          \<and> extra = 0
        \<or> (\<exists>u payee description.
             parse_line ascii_only sar_importer (map cps mixed_lines) 2
               = Inr (StandardLine f u payee description extra)
             \<and> assigned = Some u)"
    and imp: "complete_fields ascii_only f \<Longrightarrow> assigned \<noteq> None \<Longrightarrow>
        \<exists>entry units'.
          step ascii_only sar_importer (cps ''statement.pdf'') (map cps mixed_lines) 2 None
            = Inr (Some entry, extra, units')"
    by blast
  from p mixed_parse have f: "extra = 0" "assigned \<noteq> None"
    "f = \<lparr>is_credit = False, amount = cps ''10.00'', fee = cps ''1.00'',
      transaction_amount = cps ''9.00'', transaction_currency = Some (cps ''USD''),
      posting_date = cps ''01/05/23'', transaction_date = cps ''02/05/23''\<rparr>"
    by auto
  from imp[OF mixed_complete[folded f(3)] f(2)] f(1)
  have e: "\<exists>entry units'.
         step ascii_only sar_importer (cps ''statement.pdf'') (map cps mixed_lines) 2 None
           = Inr (Some entry, 0, units')" by simp
  from 0 1 s 2 3 l2 e w0 w1 w2 r show ?thesis by blast
qed

text \<open>
  The claim as stated fails: a line that matches \<open>pattern\<close> and carries the posting date
  30/02/24 makes \<open>extract\<close> raise \<open>ValueError\<close>.
\<close>

theorem extract_raises_on_bad_date:
  "extract_txns ascii_only sar_importer
     (pdf_of [text_of [''hello'', ''25.00 0.50 Cafe 24.50 EUR 30/02/24 01/03/24'']])
   = Inl ValueError"
  by code_simp

subsection \<open>The continuation line\<close>

text \<open>
  C6, as amended. A Plain line of at most 1000000 characters (its amount is then within the
  decimal context) that is followed by an "Amount:" line is read with payee and
  description from the two lines before the cursor (both absent when fewer than two lines
  precede) and consumes the following line. When its posting date is a calendar date and
  its transaction currency is found, the round appends the record with that payee and the
  loop goes on two lines further, so the following line gets no round of its own.
\<close>

theorem continued_plain_line:
  assumes "i < length lines" "plain_shape U (lines ! i)" "continued U lines i"
    "length (lines ! i) \<le> 1000000"
  shows "\<exists>f u. parse_line U self lines i =
             Inr (StandardLine f u (fst (spec_two_before lines i))
                    (snd (spec_two_before lines i)) 1)
           \<and> (\<forall>d tc. strptime U (posting_date f) = Inr d \<and> transaction_currency f = Some tc \<longrightarrow>
                (\<exists>entry. step U self fp lines i units = Inr (Some entry, 1, Some u)
                   \<and> txn_payee entry = fst (spec_two_before lines i)
                   \<and> extract_loop U self fp lines i units entries =
                       extract_loop U self fp lines (i + 2) (Some u) (entries @ [entry])))"
proof -
  from parse_plain[OF assms(1,2,4), of self] assms(3) obtain f u where
    p: "parse_line U self lines i =
          Inr (StandardLine f u (fst (spec_two_before lines i)) (snd (spec_two_before lines i)) 1)"
    by auto
  have "\<exists>entry. step U self fp lines i units = Inr (Some entry, 1, Some u)
          \<and> txn_payee entry = fst (spec_two_before lines i)
          \<and> extract_loop U self fp lines i units entries =
              extract_loop U self fp lines (i + 2) (Some u) (entries @ [entry])"
    if "strptime U (posting_date f) = Inr d" "transaction_currency f = Some tc" for d tc
  proof -
    from step_standard[OF p that, of fp units] obtain entry where
      e: "step U self fp lines i units = Inr (Some entry, 1, Some u)"
         "txn_payee entry = fst (spec_two_before lines i)" by blast
    have "extract_loop U self fp lines i units entries =
            extract_loop U self fp lines (i + 2) (Some u) (entries @ [entry])"
      using extract_loop_unfold[OF assms(1) e(1), of entries] by simp
    with e show ?thesis by blast
  qed
  with p show ?thesis by blast
qed

lemma cl_parse: "parse_line ascii_only sar_importer continued_lines 2 =
   Inr (StandardLine
     \<lparr>is_credit = False, amount = cps ''10.00'', fee = cps ''1.00'',
      transaction_amount = cps ''9.00'', transaction_currency = Some (cps ''USD''),
      posting_date = cps ''01/05/23'', transaction_date = cps ''02/05/23''\<rparr>
     \<lparr>amt_number = \<lparr>dec_neg = True, dec_coeff = 1000, dec_exp = - 2\<rparr>, amt_currency = cps ''SAR''\<rparr>
     (Some (cps ''A'')) (Some (cps ''B'')) 1)"
  by code_simp

theorem continued_plain_line_witness:
  "2 < length continued_lines \<and> plain_shape ascii_only (continued_lines ! 2)
   \<and> continued ascii_only continued_lines 2 \<and> length (continued_lines ! 2) \<le> 1000000
   \<and> (\<exists>entry u. step ascii_only sar_importer (cps ''statement.pdf'') continued_lines 2 None
                   = Inr (Some entry, 1, Some u)
        \<and> txn_payee entry = Some (cps ''A''))"
proof -
  have 1: "2 < length continued_lines" by code_simp
  have 2: "plain_shape ascii_only (continued_lines ! 2)" by code_simp
  have 3: "continued ascii_only continued_lines 2" by code_simp
  have 4: "fst (spec_two_before continued_lines 2) = Some (cps ''A'')" by code_simp
  have 5: "strptime ascii_only (cps ''01/05/23'') = Inr \<lparr>year = 2023, month = 5, day = 1\<rparr>"
    by code_simp
  have 6: "length (continued_lines ! 2) \<le> 1000000"
    by (simp add: continued_lines_def cps_def)
  from continued_plain_line[OF 1 2 3 6, of sar_importer "cps ''statement.pdf''" None "[]"]
  obtain f u where
    p: "parse_line ascii_only sar_importer continued_lines 2 =
          Inr (StandardLine f u (fst (spec_two_before continued_lines 2))
                 (snd (spec_two_before continued_lines 2)) 1)"
    and imp: "\<And>d tc. strptime ascii_only (posting_date f) = Inr d \<Longrightarrow> transaction_currency f = Some tc \<Longrightarrow>
        \<exists>entry. step ascii_only sar_importer (cps ''statement.pdf'') continued_lines 2 None
                   = Inr (Some entry, 1, Some u)
          \<and> txn_payee entry = fst (spec_two_before continued_lines 2)"
    by blast
  from p cl_parse have f: "posting_date f = cps ''01/05/23''" "transaction_currency f = Some (cps ''USD'')"
    by auto
  from imp[OF 5[folded f(1)] f(2)] 4 1 2 3 6 show ?thesis by auto
qed

text \<open>
  The claim as stated fails: a continued Plain line with the posting date 31/02/23 builds
  no record and the round raises \<open>ValueError\<close>.
\<close>

theorem continued_plain_line_counterexample:
  "plain_shape ascii_only (bad_date_continued ! 0) \<and> continued ascii_only bad_date_continued 0
   \<and> step ascii_only sar_importer (cps ''statement.pdf'') bad_date_continued 0 None
       = Inl ValueError"
  by code_simp

subsection \<open>Lines at the boundary\<close>

text \<open>
  C9, as amended. On a line of at most 1000000 characters (its amount is then within the
  decimal context) a missing neighbour gives an absent field and no failure: a Plain line
  at index 0 has no payee, a Plain line at the last index has no description, a line of the
  AmountAnnotated shape with fewer than two lines before it has neither. The record of a
  standard line is appended, with the payee so found, when its posting date is a calendar
  date and its transaction currency is found.
\<close>

theorem boundary_neighbours_absent:
  assumes "i < length lines" "length (lines ! i) \<le> 1000000"
  shows "(plain_shape U (lines ! i) \<and> i = 0 \<longrightarrow>
            (\<exists>f u description extra.
               parse_line U self lines i = Inr (StandardLine f u None description extra)))
       \<and> (plain_shape U (lines ! i) \<and> i + 1 = length lines \<longrightarrow>
            (\<exists>f u payee. parse_line U self lines i = Inr (StandardLine f u payee None 0)))
       \<and> (amount_annotated_shape U (lines ! i) \<and> i < 2 \<longrightarrow>
            (\<exists>f u. parse_line U self lines i = Inr (StandardLine f u None None 0)))
       \<and> (\<forall>f u payee description extra d tc.
            parse_line U self lines i = Inr (StandardLine f u payee description extra)
            \<and> strptime U (posting_date f) = Inr d \<and> transaction_currency f = Some tc \<longrightarrow>
            (\<exists>entry. step U self fp lines i units = Inr (Some entry, extra, Some u)
               \<and> txn_payee entry = payee))"
proof (intro conjI impI allI)
  assume a: "plain_shape U (lines ! i) \<and> i = 0"
  from parse_plain[OF assms(1) _ assms(2), of U self] a
  show "\<exists>f u description extra.
          parse_line U self lines i = Inr (StandardLine f u None description extra)"
    by (cases "continued U lines i") (auto simp: spec_two_before_def spec_before_after_def)
next
  assume a: "plain_shape U (lines ! i) \<and> i + 1 = length lines"
  then have "\<not> continued U lines i" by (simp add: continued_def)
  with parse_plain[OF assms(1) _ assms(2), of U self] a
  show "\<exists>f u payee. parse_line U self lines i = Inr (StandardLine f u payee None 0)"
    by (auto simp: spec_before_after_def)
next
  assume a: "amount_annotated_shape U (lines ! i) \<and> i < 2"
  with parse_amount_annotated[OF assms(1) _ assms(2), of U self]
  show "\<exists>f u. parse_line U self lines i = Inr (StandardLine f u None None 0)"
    by (auto simp: spec_two_before_def)
next
  fix f u payee description extra d tc
  assume "parse_line U self lines i = Inr (StandardLine f u payee description extra)
            \<and> strptime U (posting_date f) = Inr d \<and> transaction_currency f = Some tc"
  then show "\<exists>entry. step U self fp lines i units = Inr (Some entry, extra, Some u)
               \<and> txn_payee entry = payee"
    using step_standard[of U self lines i f u payee description extra d tc fp units] by blast
qed

lemma single_parse: "parse_line ascii_only sar_importer single_line 0 =
   Inr (StandardLine
     \<lparr>is_credit = False, amount = cps ''10.00'', fee = cps ''1.00'',
      transaction_amount = cps ''9.00'', transaction_currency = Some (cps ''USD''),
      posting_date = cps ''01/05/23'', transaction_date = cps ''02/05/23''\<rparr>
     \<lparr>amt_number = \<lparr>dec_neg = True, dec_coeff = 1000, dec_exp = - 2\<rparr>, amt_currency = cps ''SAR''\<rparr>
     None None 0)"
  by code_simp

lemma strptime_first_of_may:
  "strptime ascii_only (cps ''01/05/23'') = Inr \<lparr>year = 2023, month = 5, day = 1\<rparr>"
  by code_simp

theorem boundary_neighbours_absent_witness:
  "0 < length single_line \<and> length (single_line ! 0) \<le> 1000000
   \<and> length (short_annotated ! 1) \<le> 1000000 \<and> plain_shape ascii_only (single_line ! 0)
   \<and> 0 + 1 = length single_line
   \<and> (\<exists>f u. parse_line ascii_only sar_importer single_line 0 = Inr (StandardLine f u None None 0))
   \<and> (\<exists>entry u. step ascii_only sar_importer (cps ''statement.pdf'') single_line 0 None
                   = Inr (Some entry, 0, Some u) \<and> txn_payee entry = None)
   \<and> 1 < length short_annotated \<and> amount_annotated_shape ascii_only (short_annotated ! 1)
   \<and> (\<exists>f u. parse_line ascii_only sar_importer short_annotated 1
               = Inr (StandardLine f u None None 0))"
proof -
  have 1: "0 < length single_line" by code_simp
  have 2: "plain_shape ascii_only (single_line ! 0)" by code_simp
  have 3: "0 + 1 = length single_line" by code_simp
  have 4: "1 < length short_annotated" by code_simp
  have 5: "amount_annotated_shape ascii_only (short_annotated ! 1)" by code_simp
  have l1: "length (single_line ! 0) \<le> 1000000" by (simp add: single_line_def cps_def)
  have l2: "length (short_annotated ! 1) \<le> 1000000" by (simp add: short_annotated_def cps_def)
  note t = boundary_neighbours_absent[OF 1 l1, of ascii_only sar_importer "cps ''statement.pdf''" None]
  from t 2 3 obtain f u payee where
    p: "parse_line ascii_only sar_importer single_line 0 = Inr (StandardLine f u payee None 0)"
    by blast
  with single_parse have f: "payee = None" "posting_date f = cps ''01/05/23''"
    "transaction_currency f = Some (cps ''USD'')" by auto
  from t p f strptime_first_of_may obtain entry where
    e: "step ascii_only sar_importer (cps ''statement.pdf'') single_line 0 None
          = Inr (Some entry, 0, Some u)" "txn_payee entry = None"
    by (metis (no_types, lifting))
  from boundary_neighbours_absent[OF 4 l2, of ascii_only sar_importer] 5
  have 6: "\<exists>f u. parse_line ascii_only sar_importer short_annotated 1
               = Inr (StandardLine f u None None 0)" by simp
  from 1 2 3 p f(1) e 4 5 6 l1 l2 show ?thesis by blast
qed

text \<open>
  The claim as stated fails: a Plain line that is the only line of the text and has the
  posting date 31/02/23 emits no record, the round raises \<open>ValueError\<close>.
\<close>

theorem boundary_neighbours_absent_counterexample:
  "plain_shape ascii_only (bad_date_line ! 0) \<and> 0 + 1 = length bad_date_line
   \<and> step ascii_only sar_importer (cps ''statement.pdf'') bad_date_line 0 None = Inl ValueError"
  by code_simp

subsection \<open>identify\<close>













end
